theory Spec2Isabelle
  imports Main
begin

section \<open>The test program: callbacks handed to the Tester\<close>

text \<open>
  The Tester of \<^verbatim>\<open>src/testing/tester.ts\<close> receives closures (\<^verbatim>\<open>() => void\<close>) that call back
  into the Tester. A HOL state cannot hold functions over itself, so a callback is the list
  of its statements. A statement is a call on the Tester (\<^verbatim>\<open>t.describe\<close>, \<^verbatim>\<open>t.it\<close>, the hook
  registrations, \<^verbatim>\<open>t.spyOn\<close>, \<^verbatim>\<open>t.xit\<close>, \<^verbatim>\<open>t.xdescribe\<close>) or an effect of the test program on
  its environment: pushing on a log array, throwing, letting time pass, invoking a method that
  may be spied on, asserting a call count. Callbacks do not catch exceptions themselves.
  \<^verbatim>\<open>setConfig\<close>, \<^verbatim>\<open>matcher\<close> and the matchers of \<^verbatim>\<open>expect\<close> other than the call count rest on
  classes that are not among the sources and are left out; a failed expectation is a throw.
\<close>

datatype exn =
    JsError "string option" string  \<comment> \<open>an \<^verbatim>\<open>Error\<close> instance: its \<^verbatim>\<open>stack\<close> (when defined) and \<^verbatim>\<open>message\<close>\<close>
  | NonError                        \<comment> \<open>a thrown value that is not an \<^verbatim>\<open>Error\<close> instance\<close>

datatype outcome = Ok | Raised exn

datatype cmd =
    Describe string "cmd list"
  | XDescribe string "cmd list"
  | BeforeAll "cmd list"
  | BeforeEach "cmd list"
  | AfterEach "cmd list"
  | AfterAll "cmd list"
  | It string "cmd list"
  | XIt string "cmd list"
  | SpyOn string bool               \<comment> \<open>method name; whether \<^verbatim>\<open>typeof object[method] === 'function'\<close>\<close>
  | Log string                      \<comment> \<open>\<^verbatim>\<open>log.push(s)\<close>\<close>
  | Throw exn                       \<comment> \<open>\<^verbatim>\<open>throw e\<close>\<close>
  | Tick nat                        \<comment> \<open>the statement takes this many milliseconds\<close>
  | Invoke string "int list"        \<comment> \<open>\<^verbatim>\<open>object.method(args)\<close>\<close>
  | ExpectCalledTimes string nat    \<comment> \<open>\<^verbatim>\<open>t.expect(object.method).toHaveBeenCalledTimes(k)\<close>\<close>

section \<open>Data model\<close>

text \<open>
  Modelled from the spec: the class \<^verbatim>\<open>Spy\<close> (\<^verbatim>\<open>./spy\<close>) is not among the sources. A spy binds to
  one method name, is active from its installation until \<^verbatim>\<open>reset\<close>, and keeps the ordered
  history of the argument tuples it received; \<^verbatim>\<open>clearCalls\<close> empties the history and keeps the
  spy installed.
\<close>

record Spy =
  spyMethod :: string
  installed :: bool
  calls :: "int list list"

record DescriptionContext =
  beforeAlls :: "cmd list list"
  beforeEaches :: "cmd list list"
  afterEaches :: "cmd list list"
  afterAlls :: "cmd list list"
  beforeAllsCalled :: bool          \<comment> \<open>optional in the source; \<^verbatim>\<open>undefined\<close> is falsy\<close>
  successCount :: nat
  failureCount :: nat
  outputLines :: "string list"        \<comment> \<open>the field \<^verbatim>\<open>output\<close>\<close>
  spies :: "nat list"               \<comment> \<open>references to Spy objects: indices into \<open>spyHeap\<close>\<close>

text \<open>
  The fields of the Tester, then its environment. In the source \<^verbatim>\<open>currentDescriptionContext\<close>
  is an alias of the last element of \<^verbatim>\<open>descriptionContextStack\<close> (lines 11-13, 34-35, 58-59), so
  the stack is kept as the contexts below the current one, root first, and the current one.
  The environment holds the log array of the test program, the clock read by \<^verbatim>\<open>Date.now()\<close>,
  the Spy objects created so far, and the frames that the engine writes into the stack of
  an \<^verbatim>\<open>Error\<close> the Tester creates. The frames depend on the engine and on the place of the
  call: one text of the environment stands for them. \<open>new_Tester\<close> starts with an empty log,
  the clock at zero, no spy, and an engine that reports no frames.
\<close>

record Tester =
  verbose :: bool
  indentation :: nat
  outerContexts :: "DescriptionContext list"
  currentDescriptionContext :: DescriptionContext
  isInsideUnit :: bool
  testLog :: "string list"
  clock :: nat
  spyHeap :: "Spy list"
  stackFrames :: string

text \<open>The fields of \<^verbatim>\<open>TestResult\<close> carry a prefix: record fields share one name space.\<close>

record TestResult =
  res_successCount :: nat
  res_failureCount :: nat
  res_output :: "string list"

definition descriptionContextStack :: "Tester \<Rightarrow> DescriptionContext list" where
  "descriptionContextStack t = outerContexts t @ [currentDescriptionContext t]"

definition INDENT_PER_LEVEL :: nat where
  "INDENT_PER_LEVEL = 2"

definition getEmptyDescriptionContext :: DescriptionContext where
  "getEmptyDescriptionContext =
     \<lparr>beforeAlls = [], beforeEaches = [], afterEaches = [], afterAlls = [],
      beforeAllsCalled = False, successCount = 0, failureCount = 0, outputLines = [], spies = []\<rparr>"

definition new_Tester :: "bool \<Rightarrow> Tester" where
  "new_Tester v =
     \<lparr>verbose = v, indentation = INDENT_PER_LEVEL, outerContexts = [],
      currentDescriptionContext = getEmptyDescriptionContext, isInsideUnit = False,
      testLog = [], clock = 0, spyHeap = [], stackFrames = []\<rparr>"

section \<open>Strings\<close>

text \<open>Strings are byte lists; the three glyphs of the report are their UTF-8 encodings.\<close>

definition newline :: char where
  "newline = CHR 0x0A"

definition pass_glyph :: string where
  "pass_glyph = [CHR 0xE2, CHR 0x9C, CHR 0x93]"

definition fail_glyph :: string where
  "fail_glyph = [CHR 0xE2, CHR 0x9C, CHR 0x97]"

definition skip_glyph :: string where
  "skip_glyph = [CHR 0xE2, CHR 0x97, CHR 0x8B]"

text \<open>\<^verbatim>\<open>result.split('\n')\<close>: never empty, \<^verbatim>\<open>''.split('\n')\<close> is \<^verbatim>\<open>['']\<close>.\<close>

fun split_nl :: "string \<Rightarrow> string list" where
  "split_nl [] = [[]]"
| "split_nl (c # cs) =
     (if c = newline then [] # split_nl cs
      else (case split_nl cs of [] \<Rightarrow> [[c]] | l # ls \<Rightarrow> (c # l) # ls))"

definition digit_char :: "nat \<Rightarrow> char" where
  "digit_char d = char_of (48 + d)"

text \<open>The decimal numeral a template literal prints for a non-negative integer.\<close>

fun show_nat :: "nat \<Rightarrow> string" where
  "show_nat n = (if n < 10 then [digit_char n] else show_nat (n div 10) @ [digit_char (n mod 10)])"

declare show_nat.simps [simp del]

section \<open>Private helpers of the Tester\<close>

definition indent :: "Tester \<Rightarrow> Tester" where
  "indent t = t\<lparr>indentation := indentation t + INDENT_PER_LEVEL\<rparr>"

text \<open>
  Every \<^verbatim>\<open>dedent()\<close> of the source follows an \<^verbatim>\<open>indent()\<close> of the same call, so the
  subtraction on \<open>nat\<close> never truncates where the source would go below zero.
\<close>

definition dedent :: "Tester \<Rightarrow> Tester" where
  "dedent t = t\<lparr>indentation := indentation t - INDENT_PER_LEVEL\<rparr>"

text \<open>\<^verbatim>\<open>Array(this.indentation + 1).join(' ')\<close> is a run of \<open>indentation\<close> spaces.\<close>

definition indent_prefix :: "Tester \<Rightarrow> string" where
  "indent_prefix t = replicate (indentation t) (CHR '' '')"

definition output_m :: "string \<Rightarrow> Tester \<Rightarrow> Tester" where
  "output_m result t =
     t\<lparr>currentDescriptionContext := (currentDescriptionContext t)
         \<lparr>outputLines := outputLines (currentDescriptionContext t)
                      @ map (\<lambda>line. indent_prefix t @ line) (split_nl result)\<rparr>\<rparr>"

definition update_current :: "(DescriptionContext \<Rightarrow> DescriptionContext) \<Rightarrow> Tester \<Rightarrow> Tester" where
  "update_current f t = t\<lparr>currentDescriptionContext := f (currentDescriptionContext t)\<rparr>"

text \<open>Lines 34-35 of \<^verbatim>\<open>describe\<close>: a fresh context becomes current on top of the stack.\<close>

definition pushContext :: "Tester \<Rightarrow> Tester" where
  "pushContext t =
     t\<lparr>outerContexts := outerContexts t @ [currentDescriptionContext t],
       currentDescriptionContext := getEmptyDescriptionContext\<rparr>"

section \<open>Spies\<close>

text \<open>
  Modelled from the spec: \<^verbatim>\<open>Spy.clearCalls\<close> is not among the sources. It empties the recorded
  call history and keeps the spy installed.
\<close>

definition clearCalls :: "nat \<Rightarrow> Spy list \<Rightarrow> Spy list" where
  "clearCalls i h = (if i < length h then h[i := (h ! i)\<lparr>calls := []\<rparr>] else h)"

text \<open>
  Modelled from the spec: \<^verbatim>\<open>Spy.reset\<close> is not among the sources. It restores the original
  method and detaches the spy.
\<close>

definition reset :: "nat \<Rightarrow> Spy list \<Rightarrow> Spy list" where
  "reset i h = (if i < length h then h[i := (h ! i)\<lparr>installed := False\<rparr>] else h)"

text \<open>Line 160: \<^verbatim>\<open>for (const spy of context.spies) spy.clearCalls()\<close>.\<close>

definition clearSpies :: "DescriptionContext \<Rightarrow> Tester \<Rightarrow> Tester" where
  "clearSpies c t = t\<lparr>spyHeap := fold clearCalls (spies c) (spyHeap t)\<rparr>"

text \<open>
  Modelled from the spec: the constructor of \<^verbatim>\<open>Spy\<close> is not among the sources. A spy is
  created by its installation, with an empty history.
\<close>

definition new_Spy :: "string \<Rightarrow> Spy" where
  "new_Spy m = \<lparr>spyMethod = m, installed = True, calls = []\<rparr>"

text \<open>
  Modelled from the spec: the wrapper a spy installs is not among the sources. Every
  invocation through an installed wrapper appends the received arguments to the history of
  the spy.
\<close>

definition record_call :: "string \<Rightarrow> int list \<Rightarrow> Spy \<Rightarrow> Spy" where
  "record_call m args s =
     (if installed s \<and> spyMethod s = m then s\<lparr>calls := calls s @ [args]\<rparr> else s)"

text \<open>
  Modelled from the spec: \<^verbatim>\<open>Expectation.toHaveBeenCalledTimes\<close> is not among the sources. It
  requires a spy (here the one installed last on the method) and fails unless the length of
  its call history is the expected number; the two messages are placeholders.
\<close>

definition toHaveBeenCalledTimes :: "string \<Rightarrow> nat \<Rightarrow> Spy list \<Rightarrow> outcome" where
  "toHaveBeenCalledTimes m k h =
     (case rev (filter (\<lambda>s. installed s \<and> spyMethod s = m) h) of
        [] \<Rightarrow> Raised (JsError None ''Expected a spy.'')
      | s # _ \<Rightarrow> if length (calls s) = k then Ok
                 else Raised (JsError None ''Unexpected number of calls.''))"

section \<open>The Tester's methods\<close>

text \<open>
  A hook may call \<^verbatim>\<open>it\<close> or \<^verbatim>\<open>describe\<close>, which run the hooks again, and the loops of the source
  iterate over arrays that the callbacks they invoke may extend, so a run need not end: the
  interpreter takes fuel and answers \<open>None\<close> when it runs out. An exception leaves the state
  as it was when it was raised, so a result carries the state in both outcomes. A loop of the
  source is a task that carries the position of its context on the stack and the index of
  the next hook, and reads the array again at every step, as the array iterator does.
\<close>

datatype task =
    Call cmd                      \<comment> \<open>one statement of a callback\<close>
  | Body "cmd list"               \<comment> \<open>invoking a callback\<close>
  | MaybeExecuteBeforeAlls
  | BeforeAllsLoop nat nat        \<comment> \<open>lines 117-119, at stack index and hook index\<close>
  | BeforeEachLoop nat nat        \<comment> \<open>lines 134-136\<close>
  | AfterEachLoop nat nat         \<comment> \<open>lines 158-161\<close>
  | AfterAllsLoop nat nat         \<comment> \<open>lines 44-46 and 199\<close>
  | Finish

definition andThen ::
  "(outcome \<times> Tester) option \<Rightarrow> (Tester \<Rightarrow> (outcome \<times> Tester) option) \<Rightarrow> (outcome \<times> Tester) option" where
  "andThen r k =
     (case r of None \<Rightarrow> None
      | Some (Ok, t) \<Rightarrow> k t
      | Some (Raised e, t) \<Rightarrow> Some (Raised e, t))"

text \<open>The try statement of \<^verbatim>\<open>it\<close>: both outcomes of the guarded call continue.\<close>

definition onSettled ::
  "(outcome \<times> Tester) option \<Rightarrow> (outcome \<Rightarrow> Tester \<Rightarrow> (outcome \<times> Tester) option) \<Rightarrow> (outcome \<times> Tester) option" where
  "onSettled r k = (case r of None \<Rightarrow> None | Some (x, t) \<Rightarrow> k x t)"

text \<open>
  \<^verbatim>\<open>new Error(msg)\<close> as the Tester throws it. The engine gives the error its stack: the line
  \<^verbatim>\<open>Error: \<close> and the message, as V8 writes it, followed by the frames of the call.
\<close>

definition usage_error :: "string \<Rightarrow> string \<Rightarrow> exn" where
  "usage_error frames msg = JsError (Some (''Error: '' @ msg @ frames)) msg"

text \<open>
  Lines 48-72 of \<^verbatim>\<open>describe\<close>: dedent, pop, fold the counts and the output, reset the spies.
  The stack always holds the current context, so the pop of line 51 never answers
  \<^verbatim>\<open>undefined\<close> and the throw of line 53 has no branch here. Were the popped context the only
  one, line 59 would leave \<^verbatim>\<open>currentDescriptionContext\<close> undefined and line 61 would raise a
  TypeError: that is the first branch (\<open>run_frame\<close> shows that \<^verbatim>\<open>describe\<close> never takes it).
\<close>

definition describe_tail :: "string \<Rightarrow> Tester \<Rightarrow> outcome \<times> Tester" where
  "describe_tail description t0 =
     (let t = dedent t0;
          lastDescriptionContext = currentDescriptionContext t
      in if outerContexts t = []
         then (Raised (JsError (Some (''TypeError: Cannot read properties of undefined''
                                      @ stackFrames t))
                         ''Cannot read properties of undefined''), t)
         else
           (let parent = last (outerContexts t);
                folded = parent
                  \<lparr>successCount := successCount parent + successCount lastDescriptionContext,
                   failureCount := failureCount parent + failureCount lastDescriptionContext\<rparr>;
                shown =
                  (if verbose t \<or> failureCount lastDescriptionContext \<noteq> 0
                   then folded\<lparr>outputLines := outputLines folded
                          @ [[], indent_prefix t @ description] @ outputLines lastDescriptionContext\<rparr>
                   else folded)
            in (Ok, t\<lparr>outerContexts := butlast (outerContexts t),
                      currentDescriptionContext := shown,
                      spyHeap := fold reset (rev (spies lastDescriptionContext)) (spyHeap t)\<rparr>)))"

text \<open>\<^verbatim>\<open>e instanceof Error ? e.stack || e.message : '...'\<close> of line 149.\<close>

fun diagnostic :: "exn \<Rightarrow> string" where
  "diagnostic (JsError (Some stack) message) = (if stack \<noteq> [] then stack else message)"
| "diagnostic (JsError None message) = message"
| "diagnostic NonError = ''Exception during test execution. No error object.''"

text \<open>Lines 144-156 of \<^verbatim>\<open>it\<close>: what the try statement does once the unit body has settled.\<close>

fun settle :: "outcome \<Rightarrow> Tester \<Rightarrow> Tester" where
  "settle Ok t =
     (update_current (\<lambda>c. c\<lparr>successCount := successCount c + 1\<rparr>) t)\<lparr>isInsideUnit := False\<rparr>"
| "settle (Raised e) t =
     (update_current (\<lambda>c. c\<lparr>failureCount := failureCount c + 1\<rparr>) (dedent (indent t)))
       \<lparr>isInsideUnit := False\<rparr>"

fun failureOutput :: "outcome \<Rightarrow> string option" where
  "failureOutput Ok = None"
| "failureOutput (Raised e) = Some (diagnostic e)"

definition marker_line :: "bool \<Rightarrow> string \<Rightarrow> nat \<Rightarrow> string" where
  "marker_line success unitTestName elapsed =
     (if success then pass_glyph else fail_glyph) @ '' '' @ unitTestName
       @ '' (in '' @ show_nat elapsed @ '' ms)''"

text \<open>Lines 163-167 of \<^verbatim>\<open>it\<close>.\<close>

definition report :: "outcome \<Rightarrow> string \<Rightarrow> nat \<Rightarrow> Tester \<Rightarrow> Tester" where
  "report r unitTestName startTime t =
     (let t1 = (if verbose t \<or> r \<noteq> Ok
                then output_m (marker_line (r = Ok) unitTestName (clock t - startTime)) t
                else t)
      in case failureOutput r of
           None \<Rightarrow> t1
         | Some s \<Rightarrow> if s \<noteq> [] then output_m s t1 else t1)"

text \<open>Lines 198-206 of \<^verbatim>\<open>finish\<close> after the afterAll loop; \<^verbatim>\<open>spies.reverse()\<close> reverses in place.\<close>

definition finish_tail :: "Tester \<Rightarrow> Tester" where
  "finish_tail t =
     (let reversed = rev (spies (currentDescriptionContext t))
      in (update_current (\<lambda>c. c\<lparr>spies := reversed\<rparr>) t)
           \<lparr>spyHeap := fold reset reversed (spyHeap t)\<rparr>)"

fun run :: "nat \<Rightarrow> task \<Rightarrow> Tester \<Rightarrow> (outcome \<times> Tester) option" where
  "run 0 task t = None"
| "run (Suc n) (Body []) t = Some (Ok, t)"
| "run (Suc n) (Body (c # cs)) t = andThen (run n (Call c) t) (run n (Body cs))"
| "run (Suc n) (Call (Describe description testFn)) t =
     (if isInsideUnit t
      then Some (Raised (usage_error (stackFrames t) ''Illegal context for describe()''), t)
      else andThen (run n MaybeExecuteBeforeAlls t) (\<lambda>t1.
           andThen (run n (Body testFn) (indent (pushContext t1))) (\<lambda>t2.
           andThen (run n MaybeExecuteBeforeAlls t2) (\<lambda>t3.
           andThen (run n (AfterAllsLoop (length (outerContexts t3)) 0) t3) (\<lambda>t4.
           Some (describe_tail description t4))))))"
| "run (Suc n) (Call (XDescribe description testFn)) t =
     Some (Ok, output_m (newline # description @ '' (skipped)'') t)"
| "run (Suc n) (Call (BeforeAll beforeFn)) t =
     (if isInsideUnit t
      then Some (Raised (usage_error (stackFrames t) ''Illegal context for beforeAll()''), t)
      else Some (Ok, update_current (\<lambda>c. c\<lparr>beforeAlls := beforeAlls c @ [beforeFn]\<rparr>) t))"
| "run (Suc n) (Call (BeforeEach beforeFn)) t =
     (if isInsideUnit t
      then Some (Raised (usage_error (stackFrames t) ''Illegal context for beforeEach()''), t)
      else Some (Ok, update_current (\<lambda>c. c\<lparr>beforeEaches := beforeEaches c @ [beforeFn]\<rparr>) t))"
| "run (Suc n) (Call (AfterEach afterFn)) t =
     (if isInsideUnit t
      then Some (Raised (usage_error (stackFrames t) ''Illegal context for beforeEach()''), t)
      else Some (Ok, update_current (\<lambda>c. c\<lparr>afterEaches := afterEaches c @ [afterFn]\<rparr>) t))"
| "run (Suc n) (Call (AfterAll afterFn)) t =
     (if isInsideUnit t
      then Some (Raised (usage_error (stackFrames t) ''Illegal context for afterAll()''), t)
      else Some (Ok, update_current (\<lambda>c. c\<lparr>afterAlls := afterAlls c @ [afterFn]\<rparr>) t))"
| "run (Suc n) MaybeExecuteBeforeAlls t =
     (if successCount (currentDescriptionContext t) = 0
         \<and> failureCount (currentDescriptionContext t) = 0
         \<and> \<not> beforeAllsCalled (currentDescriptionContext t)
      then andThen (run n (BeforeAllsLoop (length (outerContexts t)) 0) t) (\<lambda>t1.
             Some (Ok, update_current (\<lambda>c. c\<lparr>beforeAllsCalled := True\<rparr>) t1))
      else Some (Ok, t))"
| "run (Suc n) (BeforeAllsLoop k i) t =
     (if k < length (descriptionContextStack t)
         \<and> i < length (beforeAlls (descriptionContextStack t ! k))
      then andThen (run n (Body (beforeAlls (descriptionContextStack t ! k) ! i)) t)
             (run n (BeforeAllsLoop k (Suc i)))
      else Some (Ok, t))"
| "run (Suc n) (Call (It unitTestName testFn)) t =
     (if isInsideUnit t
      then Some (Raised (usage_error (stackFrames t)
                   ''Cannot nest it() units. Use a describe() for the outer.''), t)
      else andThen (run n MaybeExecuteBeforeAlls t) (\<lambda>t1.
           andThen (run n (BeforeEachLoop 0 0) t1) (\<lambda>t2.
           onSettled (run n (Body testFn) (t2\<lparr>isInsideUnit := True\<rparr>)) (\<lambda>r t3.
           andThen (run n (AfterEachLoop 0 0) (settle r t3)) (\<lambda>t4.
           Some (Ok, report r unitTestName (clock t1) t4))))))"
| "run (Suc n) (BeforeEachLoop k i) t =
     (if k < length (descriptionContextStack t)
      then (if i < length (beforeEaches (descriptionContextStack t ! k))
            then andThen (run n (Body (beforeEaches (descriptionContextStack t ! k) ! i)) t)
                   (run n (BeforeEachLoop k (Suc i)))
            else run n (BeforeEachLoop (Suc k) 0) t)
      else Some (Ok, t))"
| "run (Suc n) (AfterEachLoop k i) t =
     (if k < length (descriptionContextStack t)
      then (if i < length (afterEaches (descriptionContextStack t ! k))
            then andThen (run n (Body (afterEaches (descriptionContextStack t ! k) ! i)) t)
                   (run n (AfterEachLoop k (Suc i)))
            else run n (AfterEachLoop (Suc k) 0) (clearSpies (descriptionContextStack t ! k) t))
      else Some (Ok, t))"
| "run (Suc n) (Call (XIt unitTestName testFn)) t =
     Some (Ok, output_m (skip_glyph @ '' '' @ unitTestName @ '' (skipped)'') t)"
| "run (Suc n) (Call (SpyOn method callable)) t =
     (if isInsideUnit t
      then Some (Raised (usage_error (stackFrames t)
                   ''Spies cannot be installed inside unit tests.''), t)
      else if \<not> callable
      then Some (Raised (usage_error (stackFrames t) ''Can only spy on functions''), t)
      else Some (Ok, (update_current (\<lambda>c. c\<lparr>spies := spies c @ [length (spyHeap t)]\<rparr>) t)
                       \<lparr>spyHeap := spyHeap t @ [new_Spy method]\<rparr>))"
| "run (Suc n) (AfterAllsLoop k i) t =
     (if k < length (descriptionContextStack t)
         \<and> i < length (afterAlls (descriptionContextStack t ! k))
      then andThen (run n (Body (afterAlls (descriptionContextStack t ! k) ! i)) t)
             (run n (AfterAllsLoop k (Suc i)))
      else Some (Ok, t))"
| "run (Suc n) Finish t =
     andThen (run n (AfterAllsLoop (length (outerContexts t)) 0) t) (\<lambda>t1.
       Some (Ok, finish_tail t1))"
| "run (Suc n) (Call (Log s)) t = Some (Ok, t\<lparr>testLog := testLog t @ [s]\<rparr>)"
| "run (Suc n) (Call (Throw e)) t = Some (Raised e, t)"
| "run (Suc n) (Call (Tick d)) t = Some (Ok, t\<lparr>clock := clock t + d\<rparr>)"
| "run (Suc n) (Call (Invoke m args)) t =
     Some (Ok, t\<lparr>spyHeap := map (record_call m args) (spyHeap t)\<rparr>)"
| "run (Suc n) (Call (ExpectCalledTimes m k)) t = Some (toHaveBeenCalledTimes m k (spyHeap t), t)"

definition testResult :: "Tester \<Rightarrow> TestResult" where
  "testResult t =
     \<lparr>res_successCount = successCount (currentDescriptionContext t),
      res_failureCount = failureCount (currentDescriptionContext t),
      res_output = outputLines (currentDescriptionContext t)\<rparr>"

text \<open>\<^verbatim>\<open>finish()\<close> returns the snapshot of the current context's counters and output.\<close>

definition finish :: "nat \<Rightarrow> Tester \<Rightarrow> (outcome \<times> Tester \<times> TestResult) option" where
  "finish n t = map_option (\<lambda>(r, t1). (r, t1, testResult t1)) (run n Finish t)"

text \<open>
  A run: the test program is a callback executed on a fresh Tester, followed by \<^verbatim>\<open>finish()\<close>.
  The answer is the outcome, the log array of the test program and the TestResult; a program
  that raises never reaches \<^verbatim>\<open>finish()\<close>.
\<close>

definition runToFinish :: "nat \<Rightarrow> bool \<Rightarrow> cmd list \<Rightarrow> (outcome \<times> string list \<times> TestResult) option" where
  "runToFinish n v program =
     (case run n (Body program) (new_Tester v) of
        None \<Rightarrow> None
      | Some (Raised e, t) \<Rightarrow> Some (Raised e, testLog t, testResult t)
      | Some (Ok, t) \<Rightarrow> map_option (\<lambda>(r, t1, res). (r, testLog t1, res)) (finish n t))"

text \<open>The outcome and the two counts of a run.\<close>

definition tally :: "(outcome \<times> string list \<times> TestResult) option \<Rightarrow> (outcome \<times> nat \<times> nat) option" where
  "tally x = map_option (\<lambda>(r, l, res). (r, res_successCount res, res_failureCount res)) x"

section \<open>Vocabulary of the proofs\<close>

text \<open>
  What a call leaves alone. Every outcome keeps the verbosity and the inside-unit flag, never
  lowers the indentation and only extends the contexts below the current one; a normal
  return, and any outcome of a call made inside a unit, leaves those contexts and the
  indentation as they were.
\<close>

definition frame :: "Tester \<Rightarrow> outcome \<Rightarrow> Tester \<Rightarrow> bool" where
  "frame t r t' \<longleftrightarrow>
     verbose t' = verbose t \<and> isInsideUnit t' = isInsideUnit t
     \<and> indentation t \<le> indentation t'
     \<and> (\<exists>ys. outerContexts t' = outerContexts t @ ys)
     \<and> (r = Ok \<or> isInsideUnit t \<longrightarrow>
          outerContexts t' = outerContexts t \<and> indentation t' = indentation t)"

text \<open>
  Quiet statements act on the environment only and never raise: a push on the log, the
  passing of time, an invocation of a method. \<open>effects\<close> is what a callback made of quiet
  statements does to a Tester.
\<close>

fun quiet :: "cmd \<Rightarrow> bool" where
  "quiet (Log s) = True"
| "quiet (Tick d) = True"
| "quiet (Invoke m args) = True"
| "quiet _ = False"

fun logged :: "cmd list \<Rightarrow> string list" where
  "logged [] = []"
| "logged (Log s # cs) = s # logged cs"
| "logged (c # cs) = logged cs"

fun elapsed :: "cmd list \<Rightarrow> nat" where
  "elapsed [] = 0"
| "elapsed (Tick d # cs) = d + elapsed cs"
| "elapsed (c # cs) = elapsed cs"

fun recorded :: "cmd list \<Rightarrow> Spy list \<Rightarrow> Spy list" where
  "recorded [] h = h"
| "recorded (Invoke m args # cs) h = recorded cs (map (record_call m args) h)"
| "recorded (c # cs) h = recorded cs h"

definition effects :: "cmd list \<Rightarrow> Tester \<Rightarrow> Tester" where
  "effects cs t =
     t\<lparr>testLog := testLog t @ logged cs, clock := clock t + elapsed cs,
       spyHeap := recorded cs (spyHeap t)\<rparr>"

text \<open>Fuel that suffices for the hooks of one context, and for those of a stack.\<close>

fun hooks_fuel :: "cmd list list \<Rightarrow> nat" where
  "hooks_fuel [] = 0"
| "hooks_fuel (h # hs) = length h + 2 + hooks_fuel hs"

fun contexts_fuel :: "cmd list list list \<Rightarrow> nat" where
  "contexts_fuel [] = 1"
| "contexts_fuel (hs # hss) = hooks_fuel hs + 1 + contexts_fuel hss"

fun sweep ::
  "(DescriptionContext \<Rightarrow> cmd list list) \<Rightarrow> (DescriptionContext \<Rightarrow> Tester \<Rightarrow> Tester)
    \<Rightarrow> DescriptionContext list \<Rightarrow> Tester \<Rightarrow> Tester" where
  "sweep sel g [] t = t"
| "sweep sel g (c # cs) t = sweep sel g cs (g c (effects (concat (sel c)) t))"

text \<open>
  The hooks \<^verbatim>\<open>it\<close> runs are quiet; the phases of \<^verbatim>\<open>it\<close> under quiet hooks; the error a
  statement raises when a unit body executes it, under the frames \<open>fr\<close> of the engine.
\<close>

definition quiet_hooks :: "Tester \<Rightarrow> bool" where
  "quiet_hooks t =
     list_all (\<lambda>c. list_all (list_all quiet) (beforeAlls c @ beforeEaches c @ afterEaches c))
       (descriptionContextStack t)"

definition beforeAlls_due :: "Tester \<Rightarrow> bool" where
  "beforeAlls_due t \<longleftrightarrow>
     successCount (currentDescriptionContext t) = 0
     \<and> failureCount (currentDescriptionContext t) = 0
     \<and> \<not> beforeAllsCalled (currentDescriptionContext t)"

definition beforeAlls_phase :: "Tester \<Rightarrow> Tester" where
  "beforeAlls_phase t =
     (if beforeAlls_due t
      then update_current (\<lambda>c. c\<lparr>beforeAllsCalled := True\<rparr>)
             (effects (concat (beforeAlls (currentDescriptionContext t))) t)
      else t)"

definition beforeEach_phase :: "Tester \<Rightarrow> Tester" where
  "beforeEach_phase t = sweep beforeEaches (\<lambda>c t. t) (descriptionContextStack t) t"

definition afterEach_phase :: "Tester \<Rightarrow> Tester" where
  "afterEach_phase t = sweep afterEaches clearSpies (descriptionContextStack t) t"

fun unit_raise :: "string \<Rightarrow> cmd \<Rightarrow> exn option" where
  "unit_raise fr (Throw e) = Some e"
| "unit_raise fr (Describe d f) = Some (usage_error fr ''Illegal context for describe()'')"
| "unit_raise fr (It d f) =
     Some (usage_error fr ''Cannot nest it() units. Use a describe() for the outer.'')"
| "unit_raise fr (BeforeAll f) = Some (usage_error fr ''Illegal context for beforeAll()'')"
| "unit_raise fr (BeforeEach f) = Some (usage_error fr ''Illegal context for beforeEach()'')"
| "unit_raise fr (AfterEach f) = Some (usage_error fr ''Illegal context for beforeEach()'')"
| "unit_raise fr (AfterAll f) = Some (usage_error fr ''Illegal context for afterAll()'')"
| "unit_raise fr (SpyOn m callable) =
     Some (usage_error fr ''Spies cannot be installed inside unit tests.'')"
| "unit_raise fr c = None"

definition it_quiet :: "string \<Rightarrow> cmd list \<Rightarrow> outcome \<Rightarrow> Tester \<Rightarrow> Tester" where
  "it_quiet name pre r t =
     (let t1 = beforeAlls_phase t;
          t2 = beforeEach_phase t1;
          t3 = effects pre (t2\<lparr>isInsideUnit := True\<rparr>);
          t4 = afterEach_phase (settle r t3)
      in report r name (clock t1) t4)"

definition it_fuel :: "cmd list \<Rightarrow> Tester \<Rightarrow> nat" where
  "it_fuel body t =
     hooks_fuel (beforeAlls (currentDescriptionContext t))
     + contexts_fuel (map beforeEaches (descriptionContextStack t))
     + length body
     + contexts_fuel (map afterEaches (descriptionContextStack t)) + 3"

text \<open>
  A unit body that runs quiet statements and then ends, or raises at a statement that raises
  inside a unit: its quiet prefix and its outcome.
\<close>

fun unit_outcome :: "string \<Rightarrow> cmd list \<Rightarrow> (cmd list \<times> outcome) option" where
  "unit_outcome fr [] = Some ([], Ok)"
| "unit_outcome fr (c # cs) =
     (if quiet c then map_option (\<lambda>(pre, r). (c # pre, r)) (unit_outcome fr cs)
      else map_option (\<lambda>e. ([], Raised e)) (unit_raise fr c))"

definition unit_elapsed :: "cmd list \<Rightarrow> Tester \<Rightarrow> nat" where
  "unit_elapsed pre t =
     elapsed (concat (concat (map beforeEaches (descriptionContextStack t))))
     + (elapsed pre + elapsed (concat (concat (map afterEaches (descriptionContextStack t)))))"

text \<open>
  The argument tuples that a spy records from a callback of quiet statements: those of the
  invocations of its method, while it is installed.
\<close>

fun received :: "Spy \<Rightarrow> cmd list \<Rightarrow> int list list" where
  "received s [] = []"
| "received s (Invoke m args # cs) =
     (if installed s \<and> spyMethod s = m then args # received s cs else received s cs)"
| "received s (c # cs) = received s cs"

text \<open>
  The calls that declare something on the Tester (the seven that check the inside-unit flag),
  and among them those that only register: the four hook registrations and \<^verbatim>\<open>spyOn\<close> of a
  callable property.
\<close>

fun declaring :: "cmd \<Rightarrow> bool" where
  "declaring (Describe d f) = True"
| "declaring (It d f) = True"
| "declaring (BeforeAll f) = True"
| "declaring (BeforeEach f) = True"
| "declaring (AfterEach f) = True"
| "declaring (AfterAll f) = True"
| "declaring (SpyOn m callable) = True"
| "declaring c = False"

fun registering :: "cmd \<Rightarrow> bool" where
  "registering (BeforeAll f) = True"
| "registering (BeforeEach f) = True"
| "registering (AfterEach f) = True"
| "registering (AfterAll f) = True"
| "registering (SpyOn m callable) = callable"
| "registering c = False"

text \<open>The error a statement raises when a hook executes it outside a unit body.\<close>

fun plain_raise :: "string \<Rightarrow> cmd \<Rightarrow> exn option" where
  "plain_raise fr (Throw e) = Some e"
| "plain_raise fr (SpyOn m callable) =
     (if callable then None else Some (usage_error fr ''Can only spy on functions''))"
| "plain_raise fr c = None"

text \<open>Lines 34-46 of \<^verbatim>\<open>describe\<close>: the scope from its opening to the end of its afterAlls.\<close>

definition describe_scope :: "nat \<Rightarrow> cmd list \<Rightarrow> Tester \<Rightarrow> (outcome \<times> Tester) option" where
  "describe_scope n testFn t1 =
     andThen (run n (Body testFn) (indent (pushContext t1))) (\<lambda>t2.
     andThen (run n MaybeExecuteBeforeAlls t2) (\<lambda>t3.
     run n (AfterAllsLoop (length (outerContexts t3)) 0) t3))"

section \<open>Scenarios\<close>

definition group_scenario :: "cmd list" where
  "group_scenario =
     [Describe ''group'' [BeforeEach [Log ''b''], It ''a'' [Log ''a''], It ''c'' [Log ''c'']]]"

definition root_hooks_only :: "cmd list" where
  "root_hooks_only = [BeforeAll [Log ''setup''], AfterAll [Log ''teardown'']]"

definition scope_hooks_only :: "cmd list" where
  "scope_hooks_only = [Describe ''d'' root_hooks_only]"

definition boom :: exn where
  "boom = JsError (Some (''Error: boom'' @ [newline] @ ''    at unit'')) ''boom''"

definition failing_unit :: "cmd list" where
  "failing_unit = [It ''u'' [Throw boom]]"

text \<open>
  Three nested scopes A, B and C under the root, each with one beforeEach and one afterEach
  that push on the log, as the Tester holds them when the first unit of C is declared.
\<close>

definition scope_with_each_hooks :: "string \<Rightarrow> bool \<Rightarrow> DescriptionContext" where
  "scope_with_each_hooks s called =
     getEmptyDescriptionContext
       \<lparr>beforeEaches := [[Log (s @ ''-before'')]], afterEaches := [[Log (s @ ''-after'')]],
        beforeAllsCalled := called\<rparr>"

definition nested_ABC :: Tester where
  "nested_ABC =
     (new_Tester False)
       \<lparr>indentation := 8,
        outerContexts :=
          [getEmptyDescriptionContext\<lparr>beforeAllsCalled := True\<rparr>,
           scope_with_each_hooks ''A'' True, scope_with_each_hooks ''B'' True],
        currentDescriptionContext := scope_with_each_hooks ''C'' False\<rparr>"

text \<open>
  An \<^verbatim>\<open>Error\<close> that has a message and no stack; a Tester on an engine that reports one frame,
  and the error \<^verbatim>\<open>describe\<close> throws there inside a unit.
\<close>

definition bare_boom :: exn where
  "bare_boom = JsError None ''boom''"

definition framed_Tester :: Tester where
  "framed_Tester = (new_Tester False)\<lparr>stackFrames := newline # ''    at Tester.describe''\<rparr>"

definition describe_in_unit_error :: exn where
  "describe_in_unit_error =
     JsError (Some (''Error: Illegal context for describe()'' @ [newline] @ ''    at Tester.describe''))
       ''Illegal context for describe()''"

definition failing_then_passing :: "cmd list" where
  "failing_then_passing = [It ''bad'' [Throw boom], It ''good'' [Log ''ran'']]"

text \<open>
  A scope that registers an afterAll, installs a spy, runs a passing unit and then throws;
  the Tester once the root's pending beforeAlls have fired; the Tester that the throw leaves
  behind; the Tester after a group with one failing unit.
\<close>

definition abandoned_body :: "cmd list" where
  "abandoned_body = [AfterAll [Log ''cleanup''], SpyOn ''m'' True, It ''u'' [], Throw boom]"

definition root_ready :: Tester where
  "root_ready = update_current (\<lambda>c. c\<lparr>beforeAllsCalled := True\<rparr>) (new_Tester False)"

definition abandoned_state :: Tester where
  "abandoned_state =
     \<lparr>verbose = False, indentation = 4,
      outerContexts = [getEmptyDescriptionContext\<lparr>beforeAllsCalled := True\<rparr>],
      currentDescriptionContext =
        getEmptyDescriptionContext
          \<lparr>afterAlls := [[Log ''cleanup'']], beforeAllsCalled := True, successCount := 1,
           spies := [0]\<rparr>,
      isInsideUnit = False, testLog = [], clock = 0, spyHeap = [new_Spy ''m''],
      stackFrames = []\<rparr>"

definition failing_group_after :: Tester where
  "failing_group_after =
     (new_Tester False)
       \<lparr>currentDescriptionContext :=
          getEmptyDescriptionContext
            \<lparr>beforeAllsCalled := True, failureCount := 1,
             outputLines := [[], ''  g'', ''    '' @ fail_glyph @ '' u (in 0 ms)'',
                            ''    Error: boom'', ''        at unit'']\<rparr>\<rparr>"

text \<open>
  A root scope whose second beforeEach hook throws after a push on the log, with an afterEach
  hook and an installed spy that has recorded one call.
\<close>

definition throwing_beforeEach :: Tester where
  "throwing_beforeEach =
     (new_Tester False)
       \<lparr>currentDescriptionContext :=
          getEmptyDescriptionContext
            \<lparr>beforeEaches := [[Log ''first'']] @ [[Log ''setup''] @ Throw boom # [Log ''unreached'']] @ [],
             afterEaches := [[Log ''after'']], beforeAllsCalled := True, spies := [0]\<rparr>,
        spyHeap := [(new_Spy ''m'')\<lparr>calls := [[1]]\<rparr>]\<rparr>"

text \<open>
  A root scope that installs a spy on \<open>m\<close> and registers hooks that invoke \<open>m\<close>, and a nested
  scope that installs a spy on \<open>k\<close> and registers an afterEach hook that invokes \<open>k\<close> and
  \<open>m\<close>; the Tester when the first unit of the nested scope is declared; a unit body that
  invokes both methods.
\<close>

definition spied_root :: "cmd list" where
  "spied_root =
     [SpyOn ''m'' True, BeforeAll [Invoke ''m'' [1]], BeforeEach [Invoke ''m'' [2]],
      AfterEach [Invoke ''m'' [5]]]"

definition spied_inner :: "cmd list" where
  "spied_inner = [SpyOn ''k'' True, AfterEach [Log ''after'', Invoke ''k'' [6], Invoke ''m'' [7]]]"

definition spied_scopes :: Tester where
  "spied_scopes =
     (new_Tester False)
       \<lparr>indentation := 4,
        outerContexts :=
          [getEmptyDescriptionContext
             \<lparr>beforeAlls := [[Invoke ''m'' [1]]], beforeEaches := [[Invoke ''m'' [2]]],
              afterEaches := [[Invoke ''m'' [5]]], beforeAllsCalled := True, spies := [0]\<rparr>],
        currentDescriptionContext :=
          getEmptyDescriptionContext
            \<lparr>afterEaches := [[Log ''after'', Invoke ''k'' [6], Invoke ''m'' [7]]], spies := [1]\<rparr>,
        spyHeap := [(new_Spy ''m'')\<lparr>calls := [[1]]\<rparr>, new_Spy ''k'']\<rparr>"

definition calling_body :: "cmd list" where
  "calling_body = [Invoke ''m'' [3], Invoke ''k'' [4]]"

text \<open>
  A scope under a root whose beforeEach hook installs a spy, when its first unit is declared,
  and after that unit.
\<close>

definition hook_spied_scope :: Tester where
  "hook_spied_scope =
     (new_Tester False)
       \<lparr>indentation := 4,
        outerContexts :=
          [getEmptyDescriptionContext
             \<lparr>beforeEaches := [[SpyOn ''m'' True]], beforeAllsCalled := True\<rparr>]\<rparr>"

definition hook_spied_unit :: "cmd list" where
  "hook_spied_unit = [Invoke ''m'' [1], ExpectCalledTimes ''m'' 1]"

definition hook_spied_scope_after :: Tester where
  "hook_spied_scope_after =
     hook_spied_scope
       \<lparr>currentDescriptionContext :=
          getEmptyDescriptionContext\<lparr>beforeAllsCalled := True, successCount := 1, spies := [0]\<rparr>,
        spyHeap := [new_Spy ''m'']\<rparr>"

text \<open>
  A scope that installs a spy and ends, and the Tester at the end of that scope, before
  \<^verbatim>\<open>describe\<close> pops it; and after \<^verbatim>\<open>describe\<close> has returned.
\<close>

definition spying_scope :: "cmd list" where
  "spying_scope = [SpyOn ''m'' True]"

definition spying_scope_end :: Tester where
  "spying_scope_end =
     (new_Tester False)
       \<lparr>indentation := 4,
        outerContexts := [getEmptyDescriptionContext\<lparr>beforeAllsCalled := True\<rparr>],
        currentDescriptionContext :=
          getEmptyDescriptionContext\<lparr>beforeAllsCalled := True, spies := [0]\<rparr>,
        spyHeap := [new_Spy ''m'']\<rparr>"

definition spying_scope_left :: Tester where
  "spying_scope_left = root_ready\<lparr>spyHeap := [(new_Spy ''m'')\<lparr>installed := False\<rparr>]\<rparr>"

text \<open>
  Runs in which units observe the call count of a spy: a second unit and a unit outside the
  scope of the spy; units of a nested scope under a root beforeEach hook that installs the
  spy; and a second unit after a first whose body invokes the method twice, in a nested
  scope whose afterEach hook invokes the method of a spy of the root.
\<close>

definition spy_scenario :: "cmd list" where
  "spy_scenario =
     [Describe ''s''
        [SpyOn ''m'' True,
         It ''first'' [Invoke ''m'' [1], Invoke ''m'' [2], ExpectCalledTimes ''m'' 2],
         It ''second'' [ExpectCalledTimes ''m'' 0]],
      It ''outside'' [ExpectCalledTimes ''m'' 0]]"

definition spy_in_beforeEach :: "cmd list" where
  "spy_in_beforeEach =
     [BeforeEach [SpyOn ''m'' True],
      Describe ''g''
        [It ''first'' [Invoke ''m'' [1], ExpectCalledTimes ''m'' 1],
         It ''second'' [ExpectCalledTimes ''m'' 0]]]"

definition deeper_afterEach_scenario :: "cmd list" where
  "deeper_afterEach_scenario =
     [SpyOn ''m'' True,
      Describe ''child''
        [AfterEach [Invoke ''m'' [9]],
         It ''first'' [Invoke ''m'' [1], Invoke ''m'' [2], ExpectCalledTimes ''m'' 2],
         It ''second'' [ExpectCalledTimes ''m'' 1]]]"

text \<open>
  A unit whose body declares a group; a Tester in the middle of a unit body; the Tester that
  the throwing beforeEach hook leaves behind.
\<close>

definition nested_declaration :: "cmd list" where
  "nested_declaration = [It ''u'' [Describe ''inner'' []]]"

definition inside_unit :: Tester where
  "inside_unit = (new_Tester False)\<lparr>isInsideUnit := True\<rparr>"

definition thrown_in_beforeEach :: Tester where
  "thrown_in_beforeEach = throwing_beforeEach\<lparr>testLog := [''first'', ''setup'']\<rparr>"

section \<open>Sequencing and fuel\<close>

lemma andThen_simps [simp]:
  "andThen None k = None"
  "andThen (Some (Ok, t)) k = k t"
  "andThen (Some (Raised e, t)) k = Some (Raised e, t)"
  by (simp_all add: andThen_def)

lemma andThen_eq_Some:
  "andThen x k = Some res \<longleftrightarrow>
     (\<exists>e t. x = Some (Raised e, t) \<and> res = (Raised e, t)) \<or> (\<exists>t. x = Some (Ok, t) \<and> k t = Some res)"
  by (auto simp: andThen_def split: option.splits outcome.splits prod.splits)

lemma onSettled_simps [simp]:
  "onSettled None k = None"
  "onSettled (Some (r, t)) k = k r t"
  by (simp_all add: onSettled_def)

lemma onSettled_eq_Some:
  "onSettled x k = Some res \<longleftrightarrow> (\<exists>r t. x = Some (r, t) \<and> k r t = Some res)"
  by (auto simp: onSettled_def split: option.splits)

text \<open>More fuel never changes an answer.\<close>

lemma run_mono: "run n task t = Some res \<Longrightarrow> n \<le> m \<Longrightarrow> run m task t = Some res"
proof (induction n arbitrary: m task t res)
  case 0
  then show ?case by simp
next
  case (Suc n)
  from Suc.prems(2) obtain m' where m: "m = Suc m'" and le: "n \<le> m'"
    by (cases m) auto
  have ih: "\<And>task t res. run n task t = Some res \<Longrightarrow> run m' task t = Some res"
    using Suc.IH le by blast
  show ?case
  proof (cases task)
    case (Call c)
    show ?thesis
    proof (cases c)
      case (Describe d f)
      with Call Suc.prems(1) show ?thesis unfolding m
        by (auto simp: andThen_eq_Some dest!: ih)
    next
      case (It d f)
      with Call Suc.prems(1) show ?thesis unfolding m
        by (auto simp: andThen_eq_Some onSettled_eq_Some dest!: ih)
    qed (use Call Suc.prems(1) in \<open>auto simp: m andThen_eq_Some dest!: ih\<close>)
  next
    case (Body cs)
    with Suc.prems(1) show ?thesis unfolding m
      by (cases cs) (auto simp: andThen_eq_Some dest!: ih)
  qed (use Suc.prems(1) in \<open>auto simp: m andThen_eq_Some dest!: ih split: if_splits\<close>)
qed

lemma runToFinish_mono:
  assumes "runToFinish n v program = Some res" and "n \<le> m"
  shows "runToFinish m v program = Some res"
proof -
  from assms(1) obtain r t where body: "run n (Body program) (new_Tester v) = Some (r, t)"
    by (auto simp: runToFinish_def split: option.splits)
  then have body': "run m (Body program) (new_Tester v) = Some (r, t)"
    using assms(2) by (rule run_mono)
  show ?thesis
  proof (cases r)
    case Ok
    with assms(1) body obtain r1 t1 where fin: "run n Finish t = Some (r1, t1)"
      and res: "res = (r1, testLog t1, testResult t1)"
      by (auto simp: runToFinish_def finish_def)
    from fin have "run m Finish t = Some (r1, t1)"
      using assms(2) by (rule run_mono)
    with Ok body' res show ?thesis
      by (simp add: runToFinish_def finish_def)
  next
    case (Raised e)
    with assms(1) body body' show ?thesis
      by (simp add: runToFinish_def)
  qed
qed

section \<open>What a call leaves alone\<close>

lemma frame_refl [simp]: "frame t r t"
  by (simp add: frame_def)

lemma frame_trans: "frame t Ok t1 \<Longrightarrow> frame t1 r t2 \<Longrightarrow> frame t r t2"
  by (auto simp: frame_def)

lemma frame_update_current [simp]: "frame t r (update_current f t)"
  by (simp add: frame_def update_current_def)

lemma frame_output_m [simp]: "frame t r (output_m s t)"
  by (simp add: frame_def output_m_def)

lemma frame_env [simp]:
  "frame t r (t\<lparr>testLog := l\<rparr>)" "frame t r (t\<lparr>clock := c\<rparr>)" "frame t r (t\<lparr>spyHeap := h\<rparr>)"
  by (simp_all add: frame_def)

lemma frame_env_after:
  "frame t r t1 \<Longrightarrow> frame t r (t1\<lparr>spyHeap := h\<rparr>)"
  by (simp_all add: frame_def)

lemma frame_env_before:
  "frame (clearSpies c t) r t1 \<Longrightarrow> frame t r t1"
  by (simp add: frame_def clearSpies_def)

lemma frame_report: "frame t Ok t1 \<Longrightarrow> frame t Ok (report r name start t1)"
  by (auto simp: frame_def report_def output_m_def Let_def split: option.splits)

lemma frame_finish_tail: "frame t Ok t1 \<Longrightarrow> frame t Ok (finish_tail t1)"
  by (auto simp: frame_def finish_tail_def update_current_def Let_def)

lemma frame_it_body:
  assumes "\<not> isInsideUnit t" "frame t Ok t2" "frame (t2\<lparr>isInsideUnit := True\<rparr>) r t3"
    "frame (settle r t3) r' t4"
  shows "frame t r' t4"
  using assms
  by (cases r) (auto simp: frame_def update_current_def indent_def dedent_def)

lemma frame_describe_raised:
  assumes "\<not> isInsideUnit t" "frame t Ok t1" "frame (indent (pushContext t1)) r t2"
  shows "frame t (Raised e) t2"
  using assms
  by (auto simp: frame_def indent_def pushContext_def)

lemma frame_describe_tail:
  assumes "frame t Ok t1" "frame (indent (pushContext t1)) Ok t4" "describe_tail d t4 = (r, t')"
  shows "frame t r t'"
  using assms
  by (auto simp: frame_def indent_def pushContext_def describe_tail_def dedent_def Let_def INDENT_PER_LEVEL_def
      split: if_splits)

lemma frame_describe_raised2:
  assumes "\<not> isInsideUnit t" "frame t Ok t1" "frame (indent (pushContext t1)) Ok t2"
    "frame t2 r t3"
  shows "frame t (Raised e) t3"
  using assms frame_describe_raised frame_trans by blast

lemma frame_describe_raised3:
  assumes "\<not> isInsideUnit t" "frame t Ok t1" "frame (indent (pushContext t1)) Ok t2"
    "frame t2 Ok t3" "frame t3 r t4"
  shows "frame t (Raised e) t4"
  using assms frame_describe_raised2 frame_trans by blast

lemma frame_describe_ok:
  assumes "frame t Ok t1" "frame (indent (pushContext t1)) Ok t2"
    "frame t2 Ok t3" "frame t3 Ok t4" "describe_tail d t4 = (r, t')"
  shows "frame t r t'"
  using assms frame_describe_tail frame_trans by blast

lemma frame_it_chain:
  assumes "\<not> isInsideUnit t" "frame t Ok t1" "frame t1 Ok t2"
    "frame (t2\<lparr>isInsideUnit := True\<rparr>) r t3" "frame (settle r t3) r' t4"
  shows "frame t r' t4"
  using assms frame_it_body frame_trans by blast

lemma frame_it_ok:
  assumes "\<not> isInsideUnit t" "frame t Ok t1" "frame t1 Ok t2"
    "frame (t2\<lparr>isInsideUnit := True\<rparr>) r t3" "frame (settle r t3) Ok t4"
  shows "frame t Ok (report r name start t4)"
  using assms frame_it_chain frame_report by blast

lemma run_frame: "run n task t = Some (r, t') \<Longrightarrow> frame t r t'"
proof (induction n arbitrary: task t r t')
  case 0
  then show ?case by simp
next
  case (Suc n)
  note ih = Suc.IH
  show ?case
  proof (cases task)
    case (Call c)
    show ?thesis
    proof (cases c)
      case (Describe d f)
      show ?thesis
      proof (cases "isInsideUnit t")
        case True
        with Call Describe Suc.prems show ?thesis by auto
      next
        case False
        with Call Describe Suc.prems show ?thesis
          apply (clarsimp simp: andThen_eq_Some)
          apply (elim disjE exE conjE)
          apply (auto dest!: ih intro: frame_describe_raised frame_describe_raised2
              frame_describe_raised3 frame_describe_ok)
          done
      qed
    next
      case (It d f)
      show ?thesis
      proof (cases "isInsideUnit t")
        case True
        with Call It Suc.prems show ?thesis by auto
      next
        case False
        with Call It Suc.prems show ?thesis
          apply (clarsimp simp: andThen_eq_Some onSettled_eq_Some)
          apply (elim disjE exE conjE)
          apply (auto dest!: ih intro: frame_trans frame_it_chain frame_it_ok)
          done
      qed
    qed (use Call Suc.prems in \<open>auto simp: andThen_eq_Some split: if_splits
           intro: frame_env_after\<close>)
  next
    case (Body cs)
    with Suc.prems show ?thesis
      by (cases cs) (auto simp: andThen_eq_Some dest!: ih intro: frame_trans)
  qed (use Suc.prems in \<open>auto simp: andThen_eq_Some dest!: ih split: if_splits
         intro: frame_trans frame_finish_tail frame_env_after frame_env_before\<close>)
qed

section \<open>Quiet callbacks\<close>

lemma logged_append [simp]: "logged (cs @ ds) = logged cs @ logged ds"
  by (induction cs rule: logged.induct) auto

lemma elapsed_append [simp]: "elapsed (cs @ ds) = elapsed cs + elapsed ds"
  by (induction cs rule: elapsed.induct) auto

lemma recorded_append [simp]: "recorded (cs @ ds) h = recorded ds (recorded cs h)"
  by (induction cs h rule: recorded.induct) auto

lemma effects_Nil [simp]: "effects [] t = t"
  by (simp add: effects_def)

lemma effects_append: "effects (cs @ ds) t = effects ds (effects cs t)"
  by (simp add: effects_def)

lemma effects_fields [simp]:
  "verbose (effects cs t) = verbose t"
  "indentation (effects cs t) = indentation t"
  "outerContexts (effects cs t) = outerContexts t"
  "currentDescriptionContext (effects cs t) = currentDescriptionContext t"
  "isInsideUnit (effects cs t) = isInsideUnit t"
  "descriptionContextStack (effects cs t) = descriptionContextStack t"
  "testLog (effects cs t) = testLog t @ logged cs"
  "clock (effects cs t) = clock t + elapsed cs"
  "spyHeap (effects cs t) = recorded cs (spyHeap t)"
  "stackFrames (effects cs t) = stackFrames t"
  by (simp_all add: effects_def descriptionContextStack_def)

lemma run_quiet_cmd:
  "quiet c \<Longrightarrow> run (Suc n) (Call c) t = Some (Ok, effects [c] t)"
  by (cases c) (simp_all add: effects_def)

lemma run_quiet:
  "list_all quiet cs \<Longrightarrow> length cs < n \<Longrightarrow> run n (Body cs) t = Some (Ok, effects cs t)"
proof (induction cs arbitrary: n t)
  case Nil
  then show ?case by (cases n) simp_all
next
  case (Cons c cs)
  from Cons.prems(2) obtain n2 where n: "n = Suc (Suc n2)" and len: "length cs < Suc n2"
    by (cases n; cases "n - 1") auto
  from Cons.prems(1) have q: "quiet c" and qs: "list_all quiet cs" by simp_all
  have "run (Suc n2) (Body cs) (effects [c] t) = Some (Ok, effects cs (effects [c] t))"
    using Cons.IH [OF qs len] .
  moreover have "run (Suc (Suc n2)) (Body (c # cs)) t
      = andThen (run (Suc n2) (Call c) t) (run (Suc n2) (Body cs))"
    by (simp only: run.simps)
  moreover have "effects cs (effects [c] t) = effects (c # cs) t"
    using effects_append [of "[c]" cs t] by simp
  ultimately show ?case
    using q by (simp only: n run_quiet_cmd andThen_simps)
qed

lemma hook_loop_quiet:
  fixes L :: "nat \<Rightarrow> task" and sel :: "DescriptionContext \<Rightarrow> cmd list list"
  assumes step: "\<And>n i t. run (Suc n) (L i) t =
      (if k < length (descriptionContextStack t) \<and> i < length (sel (descriptionContextStack t ! k))
       then andThen (run n (Body (sel (descriptionContextStack t ! k) ! i)) t) (run n (L (Suc i)))
       else Some (Ok, t))"
    and k: "k < length (descriptionContextStack t)"
    and q: "list_all (list_all quiet) (sel (descriptionContextStack t ! k))"
    and fuel: "hooks_fuel (drop i (sel (descriptionContextStack t ! k))) < n"
  shows "run n (L i) t = Some (Ok, effects (concat (drop i (sel (descriptionContextStack t ! k)))) t)"
  using k q fuel
proof (induction n arbitrary: i t)
  case 0
  then show ?case by simp
next
  case (Suc n)
  let ?hs = "sel (descriptionContextStack t ! k)"
  show ?case
  proof (cases "i < length ?hs")
    case False
    with Suc.prems show ?thesis by (simp add: step)
  next
    case True
    then have dr: "drop i ?hs = ?hs ! i # drop (Suc i) ?hs"
      by (simp add: Cons_nth_drop_Suc)
    from True Suc.prems(2) have qh: "list_all quiet (?hs ! i)"
      by (simp add: list_all_length)
    from Suc.prems(3) dr have f1: "length (?hs ! i) < n" and f2: "hooks_fuel (drop (Suc i) ?hs) < n"
      by simp_all
    let ?t1 = "effects (?hs ! i) t"
    have body: "run n (Body (?hs ! i)) t = Some (Ok, ?t1)"
      using qh f1 by (rule run_quiet)
    have "run n (L (Suc i)) ?t1
        = Some (Ok, effects (concat (drop (Suc i) (sel (descriptionContextStack ?t1 ! k)))) ?t1)"
      using Suc.prems(1,2) f2 by (intro Suc.IH) simp_all
    then show ?thesis
      using True Suc.prems(1) body dr by (simp add: step effects_append)
  qed
qed

lemma context_loop_quiet:
  fixes L :: "nat \<Rightarrow> nat \<Rightarrow> task" and sel :: "DescriptionContext \<Rightarrow> cmd list list"
    and g :: "DescriptionContext \<Rightarrow> Tester \<Rightarrow> Tester"
  assumes step: "\<And>n k i t. run (Suc n) (L k i) t =
      (if k < length (descriptionContextStack t)
       then (if i < length (sel (descriptionContextStack t ! k))
             then andThen (run n (Body (sel (descriptionContextStack t ! k) ! i)) t) (run n (L k (Suc i)))
             else run n (L (Suc k) 0) (g (descriptionContextStack t ! k) t))
       else Some (Ok, t))"
    and g: "\<And>c t. descriptionContextStack (g c t) = descriptionContextStack t"
    and k: "k < length (descriptionContextStack t)"
    and q: "list_all (\<lambda>c. list_all (list_all quiet) (sel c)) (descriptionContextStack t)"
    and fuel: "hooks_fuel (drop i (sel (descriptionContextStack t ! k)))
                 + contexts_fuel (map sel (drop (Suc k) (descriptionContextStack t))) < n"
  shows "run n (L k i) t =
     Some (Ok, sweep sel g (drop (Suc k) (descriptionContextStack t))
                 (g (descriptionContextStack t ! k)
                    (effects (concat (drop i (sel (descriptionContextStack t ! k)))) t)))"
  using k q fuel
proof (induction n arbitrary: k i t)
  case 0
  then show ?case by simp
next
  case (Suc n)
  let ?st = "descriptionContextStack t"
  let ?hs = "sel (?st ! k)"
  from Suc.prems(1,2) have qk: "list_all (list_all quiet) ?hs"
    by (simp add: list_all_length)
  show ?case
  proof (cases "i < length ?hs")
    case True
    then have dr: "drop i ?hs = ?hs ! i # drop (Suc i) ?hs"
      by (simp add: Cons_nth_drop_Suc)
    from True qk have qh: "list_all quiet (?hs ! i)"
      by (simp add: list_all_length)
    from Suc.prems(3) dr have f1: "length (?hs ! i) < n"
      and f2: "hooks_fuel (drop (Suc i) ?hs) + contexts_fuel (map sel (drop (Suc k) ?st)) < n"
      by simp_all
    let ?t1 = "effects (?hs ! i) t"
    have body: "run n (Body (?hs ! i)) t = Some (Ok, ?t1)"
      using qh f1 by (rule run_quiet)
    have "run n (L k (Suc i)) ?t1 =
        Some (Ok, sweep sel g (drop (Suc k) (descriptionContextStack ?t1))
                 (g (descriptionContextStack ?t1 ! k)
                    (effects (concat (drop (Suc i) (sel (descriptionContextStack ?t1 ! k)))) ?t1)))"
      using Suc.prems(1,2) f2 by (intro Suc.IH) simp_all
    then show ?thesis
      using True Suc.prems(1) body dr by (simp add: step effects_append)
  next
    case False
    then have dr: "drop i ?hs = []" by simp
    let ?t1 = "g (?st ! k) t"
    show ?thesis
    proof (cases "Suc k < length ?st")
      case k1: True
      then have drk: "drop (Suc k) ?st = ?st ! Suc k # drop (Suc (Suc k)) ?st"
        by (simp add: Cons_nth_drop_Suc)
      from Suc.prems(3) dr drk
      have f: "hooks_fuel (drop 0 (sel (?st ! Suc k))) + contexts_fuel (map sel (drop (Suc (Suc k)) ?st)) < n"
        by simp
      have "run n (L (Suc k) 0) ?t1 =
        Some (Ok, sweep sel g (drop (Suc (Suc k)) (descriptionContextStack ?t1))
                 (g (descriptionContextStack ?t1 ! Suc k)
                    (effects (concat (drop 0 (sel (descriptionContextStack ?t1 ! Suc k)))) ?t1)))"
        using k1 Suc.prems(2) f by (intro Suc.IH) (simp_all add: g)
      then show ?thesis
        using False Suc.prems(1) dr drk by (simp add: step g)
    next
      case k1: False
      then have drk: "drop (Suc k) ?st = []" by simp
      from Suc.prems(3) drk obtain n' where n: "n = Suc n'"
        by (cases n) simp_all
      have "run n (L (Suc k) 0) ?t1 = Some (Ok, ?t1)"
        using k1 by (simp add: n step g)
      then show ?thesis
        using False Suc.prems(1) dr drk by (simp add: step)
    qed
  qed
qed

lemma stack_nth_current [simp]:
  "descriptionContextStack t ! length (outerContexts t) = currentDescriptionContext t"
  by (simp add: descriptionContextStack_def)

lemma stack_length [simp]:
  "length (descriptionContextStack t) = Suc (length (outerContexts t))"
  by (simp add: descriptionContextStack_def)

lemma stack_clearSpies [simp]: "descriptionContextStack (clearSpies c t) = descriptionContextStack t"
  by (simp add: clearSpies_def descriptionContextStack_def)

lemma run_unit_raise:
  "isInsideUnit t \<Longrightarrow> unit_raise (stackFrames t) c = Some e
   \<Longrightarrow> run (Suc n) (Call c) t = Some (Raised e, t)"
  by (cases c) auto

lemma run_quiet_prefix:
  "list_all quiet pre \<Longrightarrow> run (length pre + Suc n) (Body (pre @ rest)) t = run (Suc n) (Body rest) (effects pre t)"
proof (induction pre arbitrary: t)
  case Nil
  then show ?case by simp
next
  case (Cons c pre)
  then have q: "quiet c" and qs: "list_all quiet pre" by simp_all
  have "run (length (c # pre) + Suc n) (Body ((c # pre) @ rest)) t
      = andThen (run (length pre + Suc n) (Call c) t) (run (length pre + Suc n) (Body (pre @ rest)))"
    by simp
  also have "\<dots> = run (length pre + Suc n) (Body (pre @ rest)) (effects [c] t)"
    using q run_quiet_cmd [of c "length pre + n" t] by simp
  also have "\<dots> = run (Suc n) (Body rest) (effects pre (effects [c] t))"
    using Cons.IH [OF qs] .
  also have "effects pre (effects [c] t) = effects (c # pre) t"
    using effects_append [of "[c]" pre t] by simp
  finally show ?case .
qed

lemma run_body_raise:
  assumes "isInsideUnit t" "list_all quiet pre" "unit_raise (stackFrames t) c = Some e"
  shows "run (length pre + Suc (Suc n)) (Body (pre @ c # post)) t = Some (Raised e, effects pre t)"
proof -
  have "run (Suc (Suc n)) (Body (c # post)) (effects pre t) = Some (Raised e, effects pre t)"
    using assms(1,3) run_unit_raise [of "effects pre t" c e n] by simp
  then show ?thesis
    using run_quiet_prefix [OF assms(2), of "Suc n" "c # post" t] by simp
qed

lemma run_body_settles:
  assumes "isInsideUnit t" "list_all quiet pre"
    and "(body = pre \<and> r = Ok)
        \<or> (\<exists>c post e. body = pre @ c # post \<and> unit_raise (stackFrames t) c = Some e \<and> r = Raised e)"
    and "length body + 2 \<le> n"
  shows "run n (Body body) t = Some (r, effects pre t)"
  using assms(3)
proof (elim disjE conjE exE)
  assume "body = pre" "r = Ok"
  with assms(2,4) show ?thesis by (simp add: run_quiet)
next
  fix c post e
  assume b: "body = pre @ c # post" and c: "unit_raise (stackFrames t) c = Some e"
    and r: "r = Raised e"
  have "run (length pre + Suc (Suc 0)) (Body (pre @ c # post)) t = Some (Raised e, effects pre t)"
    using assms(1,2) c by (rule run_body_raise)
  then show ?thesis
    using assms(4) b r by (auto intro: run_mono)
qed

lemma maybeExecuteBeforeAlls_quiet:
  assumes q: "list_all (list_all quiet) (beforeAlls (currentDescriptionContext t))"
    and fuel: "hooks_fuel (beforeAlls (currentDescriptionContext t)) + 2 \<le> n"
  shows "run n MaybeExecuteBeforeAlls t = Some (Ok, beforeAlls_phase t)"
proof -
  from fuel obtain m where n: "n = Suc m"
    and m: "hooks_fuel (drop 0 (beforeAlls (descriptionContextStack t ! length (outerContexts t)))) < m"
    by (cases n) auto
  have "run m (BeforeAllsLoop (length (outerContexts t)) 0) t
      = Some (Ok, effects (concat (drop 0 (beforeAlls (descriptionContextStack t ! length (outerContexts t))))) t)"
    using q m by (intro hook_loop_quiet [where L = "BeforeAllsLoop (length (outerContexts t))"]) simp_all
  then show ?thesis
    by (simp add: n beforeAlls_phase_def beforeAlls_due_def)
qed

lemma sweep_from_start:
  assumes "st \<noteq> []"
  shows "sweep sel g (drop (Suc 0) st) (g (st ! 0) (effects (concat (drop 0 (sel (st ! 0)))) t)) = sweep sel g st t"
  using assms by (cases st) simp_all

lemma contexts_fuel_from_start:
  assumes "st \<noteq> []"
  shows "hooks_fuel (drop 0 (sel (st ! 0))) + contexts_fuel (map sel (drop (Suc 0) st)) < contexts_fuel (map sel st)"
  using assms by (cases st) simp_all

lemma beforeEachLoop_quiet:
  assumes q: "list_all (\<lambda>c. list_all (list_all quiet) (beforeEaches c)) (descriptionContextStack t)"
    and fuel: "contexts_fuel (map beforeEaches (descriptionContextStack t)) \<le> n"
  shows "run n (BeforeEachLoop 0 0) t = Some (Ok, beforeEach_phase t)"
proof -
  have ne: "descriptionContextStack t \<noteq> []"
    by (simp add: descriptionContextStack_def)
  have "run n (BeforeEachLoop 0 0) t =
     Some (Ok, sweep beforeEaches (\<lambda>c t. t) (drop (Suc 0) (descriptionContextStack t))
                 ((\<lambda>c t. t) (descriptionContextStack t ! 0)
                    (effects (concat (drop 0 (beforeEaches (descriptionContextStack t ! 0)))) t)))"
    using q fuel contexts_fuel_from_start [OF ne, of beforeEaches]
    by (intro context_loop_quiet [where L = BeforeEachLoop]) simp_all
  then show ?thesis
    using sweep_from_start [OF ne, of beforeEaches "\<lambda>c t. t" t]
    by (simp add: beforeEach_phase_def)
qed

lemma afterEachLoop_quiet:
  assumes q: "list_all (\<lambda>c. list_all (list_all quiet) (afterEaches c)) (descriptionContextStack t)"
    and fuel: "contexts_fuel (map afterEaches (descriptionContextStack t)) \<le> n"
  shows "run n (AfterEachLoop 0 0) t = Some (Ok, afterEach_phase t)"
proof -
  have ne: "descriptionContextStack t \<noteq> []"
    by (simp add: descriptionContextStack_def)
  have "run n (AfterEachLoop 0 0) t =
     Some (Ok, sweep afterEaches clearSpies (drop (Suc 0) (descriptionContextStack t))
                 (clearSpies (descriptionContextStack t ! 0)
                    (effects (concat (drop 0 (afterEaches (descriptionContextStack t ! 0)))) t)))"
    using q fuel contexts_fuel_from_start [OF ne, of afterEaches]
    by (intro context_loop_quiet [where L = AfterEachLoop]) (simp_all add: clearSpies_def descriptionContextStack_def)
  then show ?thesis
    using sweep_from_start [OF ne, of afterEaches clearSpies t]
    by (simp add: afterEach_phase_def)
qed

lemma stack_isInsideUnit_update [simp]:
  "descriptionContextStack (t\<lparr>isInsideUnit := b\<rparr>) = descriptionContextStack t"
  by (simp add: descriptionContextStack_def)

lemma quiet_hooks_parts:
  assumes "quiet_hooks t"
  shows "list_all (list_all quiet) (beforeAlls (currentDescriptionContext t))"
    and "list_all (\<lambda>c. list_all (list_all quiet) (beforeEaches c)) (descriptionContextStack t)"
    and "list_all (\<lambda>c. list_all (list_all quiet) (afterEaches c)) (descriptionContextStack t)"
  using assms by (auto simp: quiet_hooks_def descriptionContextStack_def list_all_iff)

lemma stack_beforeAlls_phase:
  "map beforeEaches (descriptionContextStack (beforeAlls_phase t)) = map beforeEaches (descriptionContextStack t)"
  "map afterEaches (descriptionContextStack (beforeAlls_phase t)) = map afterEaches (descriptionContextStack t)"
  "map spies (descriptionContextStack (beforeAlls_phase t)) = map spies (descriptionContextStack t)"
  "isInsideUnit (beforeAlls_phase t) = isInsideUnit t"
  by (simp_all add: beforeAlls_phase_def update_current_def descriptionContextStack_def)

lemma sweep_stack [simp]:
  assumes "\<And>c t. descriptionContextStack (g c t) = descriptionContextStack t"
  shows "descriptionContextStack (sweep sel g cs t) = descriptionContextStack t"
  by (induction cs arbitrary: t) (simp_all add: assms)

lemma sweep_isInsideUnit [simp]:
  assumes "\<And>c t. isInsideUnit (g c t) = isInsideUnit t"
  shows "isInsideUnit (sweep sel g cs t) = isInsideUnit t"
  by (induction cs arbitrary: t) (simp_all add: assms)

lemma stack_settle:
  "map beforeEaches (descriptionContextStack (settle r t)) = map beforeEaches (descriptionContextStack t)
   \<and> map afterEaches (descriptionContextStack (settle r t)) = map afterEaches (descriptionContextStack t)
   \<and> map spies (descriptionContextStack (settle r t)) = map spies (descriptionContextStack t)"
  by (cases r) (simp_all add: update_current_def descriptionContextStack_def indent_def dedent_def)

lemma sweep_stackFrames [simp]:
  assumes "\<And>c t. stackFrames (g c t) = stackFrames t"
  shows "stackFrames (sweep sel g cs t) = stackFrames t"
  by (induction cs arbitrary: t) (simp_all add: assms)

lemma stackFrames_kept [simp]:
  "stackFrames (clearSpies c t) = stackFrames t"
  "stackFrames (beforeAlls_phase t) = stackFrames t"
  "stackFrames (beforeEach_phase t) = stackFrames t"
  "stackFrames (afterEach_phase t) = stackFrames t"
  "stackFrames (settle r t) = stackFrames t"
  "stackFrames (report r name start t) = stackFrames t"
  by (cases r, simp_all add: clearSpies_def beforeAlls_phase_def beforeEach_phase_def
      afterEach_phase_def update_current_def indent_def dedent_def report_def output_m_def Let_def
      split: option.splits)+

lemma list_all_map_sel:
  "list_all (\<lambda>c. P (sel c)) cs \<longleftrightarrow> list_all P (map sel cs)"
  by (simp add: list_all_iff)

lemma unit_outcome_cases:
  "unit_outcome fr body = Some (pre, r) \<Longrightarrow>
   list_all quiet pre
   \<and> ((body = pre \<and> r = Ok)
      \<or> (\<exists>c post e. body = pre @ c # post \<and> unit_raise fr c = Some e \<and> r = Raised e))"
proof (induction body arbitrary: pre)
  case Nil
  then show ?case by simp
next
  case (Cons c cs)
  show ?case
  proof (cases "quiet c")
    case True
    with Cons.prems obtain pre' where pre: "pre = c # pre'"
      and rest: "unit_outcome fr cs = Some (pre', r)"
      by auto
    from Cons.IH [OF rest] True show ?thesis
      unfolding pre by (elim conjE disjE exE) (simp, force)
  next
    case False
    with Cons.prems obtain e where "unit_raise fr c = Some e" "pre = []" "r = Raised e"
      by auto
    then show ?thesis by auto
  qed
qed

lemma it_quiet_run:
  assumes unit: "\<not> isInsideUnit t" and hooks: "quiet_hooks t" and pre: "list_all quiet pre"
    and body: "(body = pre \<and> r = Ok)
        \<or> (\<exists>c post e. body = pre @ c # post \<and> unit_raise (stackFrames t) c = Some e \<and> r = Raised e)"
    and fuel: "it_fuel body t \<le> n"
  shows "run n (Call (It name body)) t = Some (Ok, it_quiet name pre r t)"
proof -
  from fuel obtain m where n: "n = Suc m" and m: "it_fuel body t \<le> Suc m"
    by (cases n) (auto simp: it_fuel_def)
  let ?t1 = "beforeAlls_phase t"
  let ?t2 = "beforeEach_phase ?t1"
  let ?t3 = "effects pre (?t2\<lparr>isInsideUnit := True\<rparr>)"
  let ?t3' = "settle r ?t3"
  have p1: "run m MaybeExecuteBeforeAlls t = Some (Ok, ?t1)"
    using quiet_hooks_parts(1) [OF hooks] m
    by (intro maybeExecuteBeforeAlls_quiet) (simp_all add: it_fuel_def)
  have be: "map beforeEaches (descriptionContextStack ?t1) = map beforeEaches (descriptionContextStack t)"
    by (rule stack_beforeAlls_phase)
  have p2: "run m (BeforeEachLoop 0 0) ?t1 = Some (Ok, ?t2)"
  proof (rule beforeEachLoop_quiet)
    show "list_all (\<lambda>c. list_all (list_all quiet) (beforeEaches c)) (descriptionContextStack ?t1)"
      using quiet_hooks_parts(2) [OF hooks] by (simp add: list_all_map_sel be)
    show "contexts_fuel (map beforeEaches (descriptionContextStack ?t1)) \<le> m"
      using m by (simp add: it_fuel_def be)
  qed
  have p3: "run m (Body body) (?t2\<lparr>isInsideUnit := True\<rparr>) = Some (r, ?t3)"
    using pre body m by (intro run_body_settles) (simp_all add: it_fuel_def)
  have st2: "descriptionContextStack ?t2 = descriptionContextStack ?t1"
    by (simp add: beforeEach_phase_def)
  have st3: "descriptionContextStack ?t3 = descriptionContextStack ?t1"
    using st2 by simp
  have ae: "map afterEaches (descriptionContextStack ?t3') = map afterEaches (descriptionContextStack t)"
    using st3 stack_settle [of r ?t3] by (simp only: stack_beforeAlls_phase)
  have p4: "run m (AfterEachLoop 0 0) ?t3' = Some (Ok, afterEach_phase ?t3')"
  proof (rule afterEachLoop_quiet)
    show "list_all (\<lambda>c. list_all (list_all quiet) (afterEaches c)) (descriptionContextStack ?t3')"
      using quiet_hooks_parts(3) [OF hooks] by (simp add: list_all_map_sel ae)
    show "contexts_fuel (map afterEaches (descriptionContextStack ?t3')) \<le> m"
      using m by (simp add: it_fuel_def ae)
  qed
  have "run (Suc m) (Call (It name body)) t =
      andThen (run m MaybeExecuteBeforeAlls t) (\<lambda>t1.
           andThen (run m (BeforeEachLoop 0 0) t1) (\<lambda>t2.
           onSettled (run m (Body body) (t2\<lparr>isInsideUnit := True\<rparr>)) (\<lambda>r t3.
           andThen (run m (AfterEachLoop 0 0) (settle r t3)) (\<lambda>t4.
           Some (Ok, report r name (clock t1) t4)))))"
    using unit by simp
  also have "\<dots> = Some (Ok, report r name (clock ?t1) (afterEach_phase ?t3'))"
    by (simp only: p1 p2 p3 p4 andThen_simps onSettled_simps)
  finally show ?thesis
    by (simp only: n it_quiet_def Let_def)
qed

lemma sweep_testLog:
  assumes "\<And>c t. testLog (g c t) = testLog t"
  shows "testLog (sweep sel g cs t) = testLog t @ logged (concat (concat (map sel cs)))"
  by (induction cs arbitrary: t) (simp_all add: assms)

lemma sweep_clock:
  assumes "\<And>c t. clock (g c t) = clock t"
  shows "clock (sweep sel g cs t) = clock t + elapsed (concat (concat (map sel cs)))"
  by (induction cs arbitrary: t) (simp_all add: assms)

lemma sweep_frame:
  assumes "\<And>c t. descriptionContextStack (g c t) = descriptionContextStack t"
    and "\<And>c t. indentation (g c t) = indentation t"
    and "\<And>c t. verbose (g c t) = verbose t"
  shows "currentDescriptionContext (sweep sel g cs t) = currentDescriptionContext t"
    and "outerContexts (sweep sel g cs t) = outerContexts t"
    and "indentation (sweep sel g cs t) = indentation t"
    and "verbose (sweep sel g cs t) = verbose t"
proof -
  have "descriptionContextStack (sweep sel g cs t) = descriptionContextStack t"
    by (rule sweep_stack) (rule assms)
  then show "currentDescriptionContext (sweep sel g cs t) = currentDescriptionContext t"
    and "outerContexts (sweep sel g cs t) = outerContexts t"
    by (simp_all add: descriptionContextStack_def)
  show "indentation (sweep sel g cs t) = indentation t"
    by (induction cs arbitrary: t) (simp_all add: assms)
  show "verbose (sweep sel g cs t) = verbose t"
    by (induction cs arbitrary: t) (simp_all add: assms)
qed

lemma clearSpies_fields [simp]:
  "testLog (clearSpies c t) = testLog t"
  "clock (clearSpies c t) = clock t"
  "indentation (clearSpies c t) = indentation t"
  "verbose (clearSpies c t) = verbose t"
  "isInsideUnit (clearSpies c t) = isInsideUnit t"
  "spyHeap (clearSpies c t) = fold clearCalls (spies c) (spyHeap t)"
  by (simp_all add: clearSpies_def)

lemma beforeEach_phase_fields [simp]:
  "testLog (beforeEach_phase t) = testLog t @ logged (concat (concat (map beforeEaches (descriptionContextStack t))))"
  "clock (beforeEach_phase t) = clock t + elapsed (concat (concat (map beforeEaches (descriptionContextStack t))))"
  "currentDescriptionContext (beforeEach_phase t) = currentDescriptionContext t"
  "outerContexts (beforeEach_phase t) = outerContexts t"
  "indentation (beforeEach_phase t) = indentation t"
  "verbose (beforeEach_phase t) = verbose t"
  "isInsideUnit (beforeEach_phase t) = isInsideUnit t"
  "descriptionContextStack (beforeEach_phase t) = descriptionContextStack t"
  by (simp_all add: beforeEach_phase_def sweep_testLog sweep_clock sweep_frame)

lemma afterEach_phase_fields [simp]:
  "testLog (afterEach_phase t) = testLog t @ logged (concat (concat (map afterEaches (descriptionContextStack t))))"
  "clock (afterEach_phase t) = clock t + elapsed (concat (concat (map afterEaches (descriptionContextStack t))))"
  "currentDescriptionContext (afterEach_phase t) = currentDescriptionContext t"
  "outerContexts (afterEach_phase t) = outerContexts t"
  "indentation (afterEach_phase t) = indentation t"
  "verbose (afterEach_phase t) = verbose t"
  "isInsideUnit (afterEach_phase t) = isInsideUnit t"
  "descriptionContextStack (afterEach_phase t) = descriptionContextStack t"
  by (simp_all add: afterEach_phase_def sweep_testLog sweep_clock sweep_frame)

lemma beforeAlls_phase_fields [simp]:
  "testLog (beforeAlls_phase t)
     = testLog t @ logged (concat (if beforeAlls_due t then beforeAlls (currentDescriptionContext t) else []))"
  "outerContexts (beforeAlls_phase t) = outerContexts t"
  "indentation (beforeAlls_phase t) = indentation t"
  "verbose (beforeAlls_phase t) = verbose t"
  "successCount (currentDescriptionContext (beforeAlls_phase t)) = successCount (currentDescriptionContext t)"
  "failureCount (currentDescriptionContext (beforeAlls_phase t)) = failureCount (currentDescriptionContext t)"
  "outputLines (currentDescriptionContext (beforeAlls_phase t)) = outputLines (currentDescriptionContext t)"
  "spies (currentDescriptionContext (beforeAlls_phase t)) = spies (currentDescriptionContext t)"
  by (simp_all add: beforeAlls_phase_def update_current_def)

lemma report_fields [simp]:
  "testLog (report r name start t) = testLog t"
  "clock (report r name start t) = clock t"
  "spyHeap (report r name start t) = spyHeap t"
  "outerContexts (report r name start t) = outerContexts t"
  "indentation (report r name start t) = indentation t"
  "verbose (report r name start t) = verbose t"
  "isInsideUnit (report r name start t) = isInsideUnit t"
  "successCount (currentDescriptionContext (report r name start t)) = successCount (currentDescriptionContext t)"
  "failureCount (currentDescriptionContext (report r name start t)) = failureCount (currentDescriptionContext t)"
  "spies (currentDescriptionContext (report r name start t)) = spies (currentDescriptionContext t)"
  by (simp_all add: report_def output_m_def Let_def split: option.splits)

lemma settle_fields [simp]:
  "testLog (settle r t) = testLog t"
  "clock (settle r t) = clock t"
  "spyHeap (settle r t) = spyHeap t"
  "outerContexts (settle r t) = outerContexts t"
  "indentation (settle r t) = indentation t"
  "verbose (settle r t) = verbose t"
  "isInsideUnit (settle r t) = False"
  "outputLines (currentDescriptionContext (settle r t)) = outputLines (currentDescriptionContext t)"
  "spies (currentDescriptionContext (settle r t)) = spies (currentDescriptionContext t)"
  by (cases r, simp_all add: update_current_def indent_def dedent_def)+

lemma it_quiet_testLog:
  "testLog (it_quiet name pre r t) =
     testLog t
     @ logged (concat (if beforeAlls_due t then beforeAlls (currentDescriptionContext t) else []))
     @ logged (concat (concat (map beforeEaches (descriptionContextStack t))))
     @ logged pre
     @ logged (concat (concat (map afterEaches (descriptionContextStack t))))"
proof -
  have "map afterEaches (descriptionContextStack (settle r (effects pre (beforeEach_phase (beforeAlls_phase t)\<lparr>isInsideUnit := True\<rparr>))))
      = map afterEaches (descriptionContextStack t)"
    using stack_settle [of r "effects pre (beforeEach_phase (beforeAlls_phase t)\<lparr>isInsideUnit := True\<rparr>)"]
    by (simp add: stack_beforeAlls_phase)
  then show ?thesis
    by (simp add: it_quiet_def Let_def stack_beforeAlls_phase)
qed

lemma it_quiet_current:
  "successCount (currentDescriptionContext (it_quiet name pre r t))
     = successCount (currentDescriptionContext t) + (if r = Ok then 1 else 0)"
  "failureCount (currentDescriptionContext (it_quiet name pre r t))
     = failureCount (currentDescriptionContext t) + (if r = Ok then 0 else 1)"
  "isInsideUnit (it_quiet name pre r t) = False"
  "outerContexts (it_quiet name pre r t) = outerContexts t"
  "indentation (it_quiet name pre r t) = indentation t"
  by (cases r, simp_all add: it_quiet_def Let_def update_current_def indent_def dedent_def)+

lemma it_quiet_output_failure:
  "outputLines (currentDescriptionContext (it_quiet name pre (Raised e) t))
     = outputLines (currentDescriptionContext t)
       @ map (\<lambda>line. indent_prefix t @ line)
           (split_nl (marker_line False name
              (elapsed (concat (concat (map beforeEaches (descriptionContextStack t))))
               + (elapsed pre
                  + elapsed (concat (concat (map afterEaches (descriptionContextStack t)))))))
            @ (if diagnostic e = [] then [] else split_nl (diagnostic e)))"
proof -
  let ?t3 = "effects pre (beforeEach_phase (beforeAlls_phase t)\<lparr>isInsideUnit := True\<rparr>)"
  have ae: "map afterEaches (descriptionContextStack (settle (Raised e) ?t3))
      = map afterEaches (descriptionContextStack t)"
    using stack_settle [of "Raised e" ?t3] by (simp add: stack_beforeAlls_phase)
  show ?thesis
    by (simp add: it_quiet_def Let_def report_def output_m_def indent_prefix_def ae
        stack_beforeAlls_phase del: settle.simps)
qed

section \<open>The scenarios of the specification\<close>

lemma group_scenario_quiet:
  "runToFinish 10 False group_scenario
     = Some (Ok, [''b'', ''a'', ''b'', ''c''],
         \<lparr>res_successCount = 2, res_failureCount = 0, res_output = []\<rparr>)"
  by code_simp

lemma group_scenario_verbose:
  "runToFinish 10 True group_scenario
     = Some (Ok, [''b'', ''a'', ''b'', ''c''],
         \<lparr>res_successCount = 2, res_failureCount = 0,
          res_output = [[], ''  group'', ''    '' @ pass_glyph @ '' a (in 0 ms)'',
                        ''    '' @ pass_glyph @ '' c (in 0 ms)'']\<rparr>)"
  by code_simp

text \<open>
  C4. The group with one beforeEach pushing b and two passing units pushing a and c, followed
  by \<^verbatim>\<open>finish()\<close>, leaves the log b, a, b, c and returns two successes and no failure, on a
  quiet and on a verbose Tester (which differ in the output only); any fuel from 10 on gives
  this answer.
\<close>

theorem group_scenario_log_and_counts:
  "runToFinish (10 + k) v group_scenario
     = Some (Ok, [''b'', ''a'', ''b'', ''c''],
         \<lparr>res_successCount = 2, res_failureCount = 0,
          res_output =
            (if v then [[], ''  group'', ''    '' @ pass_glyph @ '' a (in 0 ms)'',
                        ''    '' @ pass_glyph @ '' c (in 0 ms)'']
             else [])\<rparr>)"
proof (cases v)
  case True
  then show ?thesis
    using runToFinish_mono [OF group_scenario_verbose, of "10 + k"] by simp
next
  case False
  then show ?thesis
    using runToFinish_mono [OF group_scenario_quiet, of "10 + k"] by simp
qed

lemma root_hooks_only_quiet:
  "runToFinish 5 False root_hooks_only
     = Some (Ok, [''teardown''],
         \<lparr>res_successCount = 0, res_failureCount = 0, res_output = []\<rparr>)"
  by code_simp

lemma root_hooks_only_verbose:
  "runToFinish 5 True root_hooks_only
     = Some (Ok, [''teardown''],
         \<lparr>res_successCount = 0, res_failureCount = 0, res_output = []\<rparr>)"
  by code_simp

text \<open>The same two hooks in a scope opened by \<^verbatim>\<open>describe\<close>: the beforeAll runs, then the afterAll.\<close>

lemma scope_hooks_only_run:
  "runToFinish 8 False scope_hooks_only
     = Some (Ok, [''setup'', ''teardown''],
         \<lparr>res_successCount = 0, res_failureCount = 0, res_output = []\<rparr>)"
  by code_simp

text \<open>
  C1. On a root scope that registers a beforeAll and an afterAll and holds no unit and no
  describe, \<^verbatim>\<open>finish()\<close> runs the afterAll and the beforeAll never runs: the log holds
  the teardown entry alone.
\<close>

theorem root_beforeAll_skipped_by_finish:
  "runToFinish (5 + k) v root_hooks_only
     = Some (Ok, [''teardown''],
         \<lparr>res_successCount = 0, res_failureCount = 0, res_output = []\<rparr>)"
proof (cases v)
  case True
  then show ?thesis
    using runToFinish_mono [OF root_hooks_only_verbose, of "5 + k"] by simp
next
  case False
  then show ?thesis
    using runToFinish_mono [OF root_hooks_only_quiet, of "5 + k"] by simp
qed

lemma failing_unit_quiet:
  "runToFinish 6 False failing_unit
     = Some (Ok, [],
         \<lparr>res_successCount = 0, res_failureCount = 1,
          res_output = [''  '' @ fail_glyph @ '' u (in 0 ms)'', ''  Error: boom'', ''      at unit'']\<rparr>)"
  by code_simp

lemma failing_unit_verbose:
  "runToFinish 6 True failing_unit
     = Some (Ok, [],
         \<lparr>res_successCount = 0, res_failureCount = 1,
          res_output = [''  '' @ fail_glyph @ '' u (in 0 ms)'', ''  Error: boom'', ''      at unit'']\<rparr>)"
  by code_simp

text \<open>
  C8. A failing unit at the root: the marker line and every line of the diagnostic carry the
  same prefix of two spaces (the second diagnostic line has the four spaces of the stack
  trace after it); the diagnostic is not one level deeper than the marker.
\<close>

theorem failing_unit_diagnostic_prefix:
  "runToFinish (6 + k) v failing_unit
     = Some (Ok, [],
         \<lparr>res_successCount = 0, res_failureCount = 1,
          res_output = [''  '' @ fail_glyph @ '' u (in 0 ms)'', ''  Error: boom'', ''      at unit'']\<rparr>)"
proof (cases v)
  case True
  then show ?thesis
    using runToFinish_mono [OF failing_unit_verbose, of "6 + k"] by simp
next
  case False
  then show ?thesis
    using runToFinish_mono [OF failing_unit_quiet, of "6 + k"] by simp
qed

section \<open>Units\<close>

text \<open>
  C2. Under quiet hooks, a unit declared outside a unit body leaves on the log, in this
  order: what the pending beforeAlls of the current scope push, what the beforeEach hooks
  push, scope by scope from the root to the current scope, what the body pushes before it
  ends or raises, and what the afterEach hooks push, again from the root to the current
  scope. The fuel \<open>it_fuel\<close> is enough for the call to return.
\<close>

theorem it_runs_hooks_root_to_leaf:
  assumes "\<not> isInsideUnit t" and "quiet_hooks t"
    and "unit_outcome (stackFrames t) body = Some (pre, r)" and "it_fuel body t \<le> n"
  shows "\<exists>t'. run n (Call (It name body)) t = Some (Ok, t')
     \<and> testLog t' =
         testLog t
         @ logged (concat (if beforeAlls_due t then beforeAlls (currentDescriptionContext t) else []))
         @ logged (concat (concat (map beforeEaches (descriptionContextStack t))))
         @ logged pre
         @ logged (concat (concat (map afterEaches (descriptionContextStack t))))"
proof -
  have "run n (Call (It name body)) t = Some (Ok, it_quiet name pre r t)"
    using assms unit_outcome_cases [of "stackFrames t" body pre r] by (intro it_quiet_run) simp_all
  then show ?thesis
    by (simp add: it_quiet_testLog)
qed

theorem it_runs_hooks_root_to_leaf_witness:
  "\<not> isInsideUnit nested_ABC \<and> quiet_hooks nested_ABC
   \<and> unit_outcome (stackFrames nested_ABC) [Log ''unit''] = Some ([Log ''unit''], Ok)
   \<and> it_fuel [Log ''unit''] nested_ABC \<le> 40
   \<and> (\<exists>t'. run 40 (Call (It ''u'' [Log ''unit''])) nested_ABC = Some (Ok, t')
        \<and> testLog t' = [''A-before'', ''B-before'', ''C-before'', ''unit'',
                         ''A-after'', ''B-after'', ''C-after''])"
proof -
  have h1: "\<not> isInsideUnit nested_ABC"
    by (simp add: nested_ABC_def new_Tester_def)
  have h2: "quiet_hooks nested_ABC"
    by (simp add: quiet_hooks_def nested_ABC_def new_Tester_def descriptionContextStack_def
        scope_with_each_hooks_def getEmptyDescriptionContext_def)
  have h3: "unit_outcome (stackFrames nested_ABC) [Log ''unit''] = Some ([Log ''unit''], Ok)"
    by simp
  have h4: "it_fuel [Log ''unit''] nested_ABC \<le> 40"
    by (simp add: it_fuel_def nested_ABC_def new_Tester_def descriptionContextStack_def
        scope_with_each_hooks_def getEmptyDescriptionContext_def)
  from it_runs_hooks_root_to_leaf [OF h1 h2 h3 h4, of "''u''"]
  have "\<exists>t'. run 40 (Call (It ''u'' [Log ''unit''])) nested_ABC = Some (Ok, t')
        \<and> testLog t' = [''A-before'', ''B-before'', ''C-before'', ''unit'',
                         ''A-after'', ''B-after'', ''C-after'']"
    by (simp add: nested_ABC_def new_Tester_def descriptionContextStack_def
        scope_with_each_hooks_def getEmptyDescriptionContext_def beforeAlls_due_def)
  with h1 h2 h3 h4 show ?thesis by blast
qed

lemma failing_then_passing_run:
  "runToFinish 8 False failing_then_passing
     = Some (Ok, [''ran''],
         \<lparr>res_successCount = 1, res_failureCount = 1,
          res_output = [''  '' @ fail_glyph @ '' bad (in 0 ms)'', ''  Error: boom'', ''      at unit'']\<rparr>)"
  by code_simp

lemma diagnostic_lines:
  "(if diagnostic e = [] then [] else split_nl (diagnostic e))
     = (case e of
          JsError (Some stack) message \<Rightarrow>
            if stack \<noteq> [] then split_nl stack
            else if message \<noteq> [] then split_nl message else []
        | JsError None message \<Rightarrow> if message \<noteq> [] then split_nl message else []
        | NonError \<Rightarrow> [''Exception during test execution. No error object.''])"
proof (cases e)
  case (JsError stack message)
  then show ?thesis by (cases stack) simp_all
next
  case NonError
  have "split_nl ''Exception during test execution. No error object.''
      = [''Exception during test execution. No error object.'']"
    by code_simp
  with NonError show ?thesis by simp
qed

lemma it_quiet_hooks:
  "map beforeAlls (descriptionContextStack (it_quiet name pre r t)) = map beforeAlls (descriptionContextStack t)"
  "map beforeEaches (descriptionContextStack (it_quiet name pre r t)) = map beforeEaches (descriptionContextStack t)"
  "map afterEaches (descriptionContextStack (it_quiet name pre r t)) = map afterEaches (descriptionContextStack t)"
  by (cases r, simp_all add: it_quiet_def Let_def report_def output_m_def descriptionContextStack_def
      beforeAlls_phase_def update_current_def indent_def dedent_def split: option.splits)+

lemma quiet_hooks_maps:
  "quiet_hooks t \<longleftrightarrow>
     list_all (list_all (list_all quiet)) (map beforeAlls (descriptionContextStack t))
     \<and> list_all (list_all (list_all quiet)) (map beforeEaches (descriptionContextStack t))
     \<and> list_all (list_all (list_all quiet)) (map afterEaches (descriptionContextStack t))"
  by (auto simp: quiet_hooks_def list_all_iff)

lemma it_quiet_quiet_hooks: "quiet_hooks (it_quiet name pre r t) = quiet_hooks t"
  by (simp only: quiet_hooks_maps it_quiet_hooks)

lemma it_quiet_it_fuel: "it_fuel body (it_quiet name pre r t) = it_fuel body t"
proof -
  have "beforeAlls (last (descriptionContextStack (it_quiet name pre r t)))
      = beforeAlls (last (descriptionContextStack t))"
    using it_quiet_hooks(1) [of name pre r t]
    by (metis last_map length_greater_0_conv list.map_disc_iff stack_length zero_less_Suc)
  then have "beforeAlls (currentDescriptionContext (it_quiet name pre r t))
      = beforeAlls (currentDescriptionContext t)"
    by (simp add: descriptionContextStack_def)
  then show ?thesis
    by (simp add: it_fuel_def it_quiet_hooks)
qed

lemma it_quiet_stackFrames [simp]: "stackFrames (it_quiet name pre r t) = stackFrames t"
  by (simp add: it_quiet_def Let_def del: settle.simps)

lemma it_quiet_not_due: "\<not> beforeAlls_due (it_quiet name pre (Raised e) t)"
  by (simp add: beforeAlls_due_def it_quiet_current)



section \<open>Scopes\<close>

lemma run_describe:
  "run (Suc n) (Call (Describe description testFn)) t =
     (if isInsideUnit t
      then Some (Raised (usage_error (stackFrames t) ''Illegal context for describe()''), t)
      else andThen (run n MaybeExecuteBeforeAlls t) (\<lambda>t1.
           andThen (describe_scope n testFn t1) (\<lambda>t4. Some (describe_tail description t4))))"
proof -
  have assoc: "\<And>x f g. andThen (andThen x f) g = andThen x (\<lambda>s. andThen (f s) g)"
    by (auto simp: andThen_def split: option.splits prod.splits outcome.splits)
  show ?thesis
    by (simp add: describe_scope_def assoc)
qed

lemma describe_scope_frame:
  assumes "describe_scope n testFn t1 = Some (r, t4)"
  shows "frame (indent (pushContext t1)) r t4"
proof -
  from assms consider
    (body) e where "run n (Body testFn) (indent (pushContext t1)) = Some (Raised e, t4)" "r = Raised e"
  | (before) t2 e where "run n (Body testFn) (indent (pushContext t1)) = Some (Ok, t2)"
      "run n MaybeExecuteBeforeAlls t2 = Some (Raised e, t4)" "r = Raised e"
  | (after) t2 t3 where "run n (Body testFn) (indent (pushContext t1)) = Some (Ok, t2)"
      "run n MaybeExecuteBeforeAlls t2 = Some (Ok, t3)"
      "run n (AfterAllsLoop (length (outerContexts t3)) 0) t3 = Some (r, t4)"
    by (auto simp: describe_scope_def andThen_eq_Some)
  then show ?thesis
  proof cases
    case body
    then show ?thesis by (auto dest: run_frame)
  next
    case before
    then show ?thesis by (auto dest!: run_frame intro: frame_trans)
  next
    case after
    then show ?thesis by (auto dest!: run_frame intro: frame_trans)
  qed
qed

text \<open>
  C7. When \<^verbatim>\<open>describe\<close> returns normally, with \<open>t1\<close> the Tester after the pending beforeAlls
  of the parent and \<open>t4\<close> the Tester when the afterAlls of the child scope have run: the
  counts of the child are added to those of the parent, and the parent's output gains a
  blank line, the description indented at the parent's level and the child's output lines
  exactly when the Tester is verbose or the child counts a failure; otherwise the parent's
  output is unchanged. The contexts below the parent are untouched.
\<close>

theorem describe_folds_child_scope:
  assumes "run (Suc n) (Call (Describe description testFn)) t = Some (Ok, t')"
  shows "\<exists>t1 t4.
      run n MaybeExecuteBeforeAlls t = Some (Ok, t1)
    \<and> describe_scope n testFn t1 = Some (Ok, t4)
    \<and> outerContexts t' = outerContexts t
    \<and> successCount (currentDescriptionContext t')
        = successCount (currentDescriptionContext t1) + successCount (currentDescriptionContext t4)
    \<and> failureCount (currentDescriptionContext t')
        = failureCount (currentDescriptionContext t1) + failureCount (currentDescriptionContext t4)
    \<and> outputLines (currentDescriptionContext t')
        = outputLines (currentDescriptionContext t1)
          @ (if verbose t \<or> failureCount (currentDescriptionContext t4) \<noteq> 0
             then [[], indent_prefix t @ description] @ outputLines (currentDescriptionContext t4)
             else [])"
proof -
  from assms have unit: "\<not> isInsideUnit t"
    by (auto split: if_splits)
  with assms obtain t1 t4 where
    1: "run n MaybeExecuteBeforeAlls t = Some (Ok, t1)"
    and 2: "describe_scope n testFn t1 = Some (Ok, t4)"
    and 3: "describe_tail description t4 = (Ok, t')"
    by (auto simp: run_describe andThen_eq_Some simp del: run.simps)
  have f1: "frame t Ok t1"
    using 1 by (rule run_frame)
  have f2: "frame (indent (pushContext t1)) Ok t4"
    using 2 by (rule describe_scope_frame)
  from f1 f2 have outer: "outerContexts t4 = outerContexts t @ [currentDescriptionContext t1]"
    and ind: "indentation t4 = indentation t + INDENT_PER_LEVEL"
    and verb: "verbose t4 = verbose t"
    by (simp_all add: frame_def indent_def pushContext_def)
  from 3 outer ind verb have
    "outerContexts t' = outerContexts t"
    "successCount (currentDescriptionContext t')
        = successCount (currentDescriptionContext t1) + successCount (currentDescriptionContext t4)"
    "failureCount (currentDescriptionContext t')
        = failureCount (currentDescriptionContext t1) + failureCount (currentDescriptionContext t4)"
    "outputLines (currentDescriptionContext t')
        = outputLines (currentDescriptionContext t1)
          @ (if verbose t \<or> failureCount (currentDescriptionContext t4) \<noteq> 0
             then [[], indent_prefix t @ description] @ outputLines (currentDescriptionContext t4)
             else [])"
    by (auto simp: describe_tail_def dedent_def indent_prefix_def Let_def)
  with 1 2 show ?thesis by blast
qed

theorem describe_folds_child_scope_witness:
  "run (Suc 7) (Call (Describe ''g'' failing_unit)) (new_Tester False) = Some (Ok, failing_group_after)
   \<and> (\<exists>t1 t4.
      run 7 MaybeExecuteBeforeAlls (new_Tester False) = Some (Ok, t1)
    \<and> describe_scope 7 failing_unit t1 = Some (Ok, t4)
    \<and> outerContexts failing_group_after = outerContexts (new_Tester False)
    \<and> successCount (currentDescriptionContext failing_group_after)
        = successCount (currentDescriptionContext t1) + successCount (currentDescriptionContext t4)
    \<and> failureCount (currentDescriptionContext failing_group_after)
        = failureCount (currentDescriptionContext t1) + failureCount (currentDescriptionContext t4)
    \<and> outputLines (currentDescriptionContext failing_group_after)
        = outputLines (currentDescriptionContext t1)
          @ (if verbose (new_Tester False) \<or> failureCount (currentDescriptionContext t4) \<noteq> 0
             then [[], indent_prefix (new_Tester False) @ ''g'']
                  @ outputLines (currentDescriptionContext t4)
             else []))"
proof -
  have h: "run (Suc 7) (Call (Describe ''g'' failing_unit)) (new_Tester False)
      = Some (Ok, failing_group_after)"
    by code_simp
  from describe_folds_child_scope [OF h] h show ?thesis by blast
qed

text \<open>
  C10. When the body of \<^verbatim>\<open>describe\<close> raises, \<^verbatim>\<open>describe\<close> raises the same exception and the
  Tester stays exactly as the body left it: nothing of lines 40-72 runs (no afterAll, no
  spy reset, no fold). The parent context still lies on the stack as it was when the child
  scope opened, below at least one context that was never popped; the indentation is at least
  one level deeper than before the call.
\<close>

theorem describe_not_atomic_on_exception:
  assumes "\<not> isInsideUnit t"
    and "run n MaybeExecuteBeforeAlls t = Some (Ok, t1)"
    and "run n (Body testFn) (indent (pushContext t1)) = Some (Raised e, t2)"
  shows "run (Suc n) (Call (Describe description testFn)) t = Some (Raised e, t2)
    \<and> (\<exists>deeper. outerContexts t2 = outerContexts t @ currentDescriptionContext t1 # deeper)
    \<and> indentation t + INDENT_PER_LEVEL \<le> indentation t2
    \<and> \<not> isInsideUnit t2"
proof -
  have f1: "frame t Ok t1"
    using assms(2) by (rule run_frame)
  have f2: "frame (indent (pushContext t1)) (Raised e) t2"
    using assms(3) by (rule run_frame)
  have "run (Suc n) (Call (Describe description testFn)) t = Some (Raised e, t2)"
    using assms by simp
  moreover from f1 f2 have "\<exists>deeper. outerContexts t2 = outerContexts t @ currentDescriptionContext t1 # deeper"
    by (auto simp: frame_def indent_def pushContext_def)
  moreover from f1 f2 have "indentation t + INDENT_PER_LEVEL \<le> indentation t2"
    by (auto simp: frame_def indent_def pushContext_def)
  moreover from f1 f2 assms(1) have "\<not> isInsideUnit t2"
    by (auto simp: frame_def indent_def pushContext_def)
  ultimately show ?thesis by blast
qed

theorem describe_not_atomic_on_exception_witness:
  "\<not> isInsideUnit (new_Tester False)
   \<and> run 9 MaybeExecuteBeforeAlls (new_Tester False) = Some (Ok, root_ready)
   \<and> run 9 (Body abandoned_body) (indent (pushContext root_ready)) = Some (Raised boom, abandoned_state)
   \<and> run (Suc 9) (Call (Describe ''d'' abandoned_body)) (new_Tester False) = Some (Raised boom, abandoned_state)
   \<and> (\<exists>deeper. outerContexts abandoned_state
          = outerContexts (new_Tester False) @ currentDescriptionContext root_ready # deeper)
   \<and> indentation (new_Tester False) + INDENT_PER_LEVEL \<le> indentation abandoned_state
   \<and> \<not> isInsideUnit abandoned_state"
proof -
  have h1: "\<not> isInsideUnit (new_Tester False)"
    by (simp add: new_Tester_def)
  have h2: "run 9 MaybeExecuteBeforeAlls (new_Tester False) = Some (Ok, root_ready)"
    by code_simp
  have h3: "run 9 (Body abandoned_body) (indent (pushContext root_ready))
      = Some (Raised boom, abandoned_state)"
    by code_simp
  from describe_not_atomic_on_exception [OF h1 h2 h3, of "''d''"] h1 h2 h3
  show ?thesis by blast
qed

section \<open>Hooks that raise\<close>

lemma run_plain_raise:
  "\<not> isInsideUnit t \<Longrightarrow> plain_raise (stackFrames t) c = Some e
   \<Longrightarrow> run (Suc n) (Call c) t = Some (Raised e, t)"
  by (cases c) (auto split: if_splits)

lemma run_hook_raise:
  assumes "\<not> isInsideUnit t" "list_all quiet pre" "plain_raise (stackFrames t) c = Some e"
    and "length pre + 2 \<le> n"
  shows "run n (Body (pre @ c # post)) t = Some (Raised e, effects pre t)"
proof -
  have "run (Suc (Suc 0)) (Body (c # post)) (effects pre t) = Some (Raised e, effects pre t)"
    using assms(1,3) run_plain_raise [of "effects pre t" c e 0] by simp
  then have "run (length pre + Suc (Suc 0)) (Body (pre @ c # post)) t = Some (Raised e, effects pre t)"
    using run_quiet_prefix [OF assms(2), of "Suc 0" "c # post" t] by simp
  then show ?thesis
    using assms(4) by (auto intro: run_mono)
qed

lemma hooks_fuel_append [simp]: "hooks_fuel (xs @ ys) = hooks_fuel xs + hooks_fuel ys"
  by (induction xs) simp_all

lemma beforeEachLoop_raise:
  assumes "\<not> isInsideUnit t"
    and "k < length (descriptionContextStack t)"
    and "drop i (beforeEaches (descriptionContextStack t ! k))
           @ concat (map beforeEaches (drop (Suc k) (descriptionContextStack t)))
         = hs1 @ (pre @ c # post) # hs2"
    and "list_all (list_all quiet) hs1" and "list_all quiet pre"
    and "plain_raise (stackFrames t) c = Some e"
    and "hooks_fuel (drop i (beforeEaches (descriptionContextStack t ! k)))
           + contexts_fuel (map beforeEaches (drop (Suc k) (descriptionContextStack t))) < n"
  shows "run n (BeforeEachLoop k i) t = Some (Raised e, effects (concat hs1 @ pre) t)"
  using assms
proof (induction n arbitrary: k i t hs1)
  case 0
  then show ?case by simp
next
  case (Suc n)
  let ?st = "descriptionContextStack t"
  let ?hs = "beforeEaches (?st ! k)"
  let ?h = "pre @ c # post"
  show ?case
  proof (cases "i < length ?hs")
    case True
    then have dr: "drop i ?hs = ?hs ! i # drop (Suc i) ?hs"
      by (simp add: Cons_nth_drop_Suc)
    from Suc.prems(7) dr have f1: "length (?hs ! i) + 2 \<le> n"
      and f2: "hooks_fuel (drop (Suc i) ?hs) + contexts_fuel (map beforeEaches (drop (Suc k) ?st)) < n"
      by simp_all
    show ?thesis
    proof (cases hs1)
      case Nil
      with Suc.prems(3) dr have h: "?hs ! i = ?h" by simp
      have "run n (Body (?hs ! i)) t = Some (Raised e, effects pre t)"
        unfolding h using Suc.prems(1,5,6) f1 [unfolded h] by (intro run_hook_raise) simp_all
      then show ?thesis
        using True Suc.prems(2) Nil by simp
    next
      case (Cons x xs)
      with Suc.prems(3) dr have x: "?hs ! i = x"
        and rest: "drop (Suc i) ?hs @ concat (map beforeEaches (drop (Suc k) ?st)) = xs @ ?h # hs2"
        by simp_all
      from Cons Suc.prems(4) have qx: "list_all quiet x" and qxs: "list_all (list_all quiet) xs"
        by simp_all
      let ?t1 = "effects x t"
      have body: "run n (Body (?hs ! i)) t = Some (Ok, ?t1)"
        unfolding x using qx f1 [unfolded x] by (intro run_quiet) simp_all
      have "run n (BeforeEachLoop k (Suc i)) ?t1 = Some (Raised e, effects (concat xs @ pre) ?t1)"
        using Suc.prems(1,2,5,6) rest qxs f2 by (intro Suc.IH) simp_all
      then show ?thesis
        using True Suc.prems(2) body Cons by (simp add: effects_append)
    qed
  next
    case False
    then have dr: "drop i ?hs = []" by simp
    with Suc.prems(3) have ne: "concat (map beforeEaches (drop (Suc k) ?st)) \<noteq> []"
      by simp
    then have k1: "Suc k < length ?st"
      by (cases "Suc k < length ?st") simp_all
    then have drk: "drop (Suc k) ?st = ?st ! Suc k # drop (Suc (Suc k)) ?st"
      by (simp add: Cons_nth_drop_Suc)
    from Suc.prems(3) dr drk
    have rest: "drop 0 (beforeEaches (?st ! Suc k)) @ concat (map beforeEaches (drop (Suc (Suc k)) ?st))
        = hs1 @ ?h # hs2"
      by simp
    from Suc.prems(7) dr drk
    have f: "hooks_fuel (drop 0 (beforeEaches (?st ! Suc k)))
        + contexts_fuel (map beforeEaches (drop (Suc (Suc k)) ?st)) < n"
      by simp
    have "run n (BeforeEachLoop (Suc k) 0) t = Some (Raised e, effects (concat hs1 @ pre) t)"
      using Suc.prems(1,4,5,6) k1 rest f by (intro Suc.IH) simp_all
    then show ?thesis
      using False Suc.prems(2) by simp
  qed
qed


lemma beforeAlls_phase_env [simp]:
  "spyHeap (beforeAlls_phase t)
     = recorded (concat (if beforeAlls_due t then beforeAlls (currentDescriptionContext t) else []))
         (spyHeap t)"
  "clock (beforeAlls_phase t)
     = clock t + elapsed (concat (if beforeAlls_due t then beforeAlls (currentDescriptionContext t) else []))"
  by (simp_all add: beforeAlls_phase_def update_current_def)

text \<open>
  C9. When the beforeEach hooks before some hook are quiet and that hook raises \<open>e\<close> after a
  quiet prefix, \<^verbatim>\<open>it\<close> raises \<open>e\<close> to its caller. The Tester is left as the hooks executed
  so far left it: neither count moves, no line is written, the log holds the entries of the
  pending beforeAlls and of the hooks run so far and nothing of the body or of an afterEach
  hook, the histories of the spies only grew by the calls those hooks made, and the Tester is
  not inside a unit.
\<close>

theorem it_propagates_beforeEach_exception:
  assumes "\<not> isInsideUnit t"
    and "list_all (list_all quiet) (beforeAlls (currentDescriptionContext t))"
    and "concat (map beforeEaches (descriptionContextStack t)) = hs1 @ (pre @ c # post) # hs2"
    and "list_all (list_all quiet) hs1" and "list_all quiet pre"
    and "plain_raise (stackFrames t) c = Some e"
    and "it_fuel body t \<le> n"
  shows "\<exists>t'. run n (Call (It name body)) t = Some (Raised e, t')
     \<and> successCount (currentDescriptionContext t') = successCount (currentDescriptionContext t)
     \<and> failureCount (currentDescriptionContext t') = failureCount (currentDescriptionContext t)
     \<and> outputLines (currentDescriptionContext t') = outputLines (currentDescriptionContext t)
     \<and> testLog t' =
         testLog t
         @ logged (concat (if beforeAlls_due t then beforeAlls (currentDescriptionContext t) else []))
         @ logged (concat hs1 @ pre)
     \<and> spyHeap t' =
         recorded (concat hs1 @ pre)
           (recorded (concat (if beforeAlls_due t then beforeAlls (currentDescriptionContext t) else []))
              (spyHeap t))
     \<and> \<not> isInsideUnit t'"
proof -
  from assms(7) obtain m where n: "n = Suc m" and m: "it_fuel body t \<le> Suc m"
    by (cases n) (auto simp: it_fuel_def)
  let ?t1 = "beforeAlls_phase t"
  let ?t' = "effects (concat hs1 @ pre) ?t1"
  have p1: "run m MaybeExecuteBeforeAlls t = Some (Ok, ?t1)"
    using assms(2) m by (intro maybeExecuteBeforeAlls_quiet) (simp_all add: it_fuel_def)
  have be: "map beforeEaches (descriptionContextStack ?t1) = map beforeEaches (descriptionContextStack t)"
    by (rule stack_beforeAlls_phase)
  have ne: "descriptionContextStack ?t1 \<noteq> []"
    by (simp add: descriptionContextStack_def)
  have flat: "drop 0 (beforeEaches (descriptionContextStack ?t1 ! 0))
           @ concat (map beforeEaches (drop (Suc 0) (descriptionContextStack ?t1)))
         = hs1 @ (pre @ c # post) # hs2"
  proof -
    have "drop 0 (beforeEaches (descriptionContextStack ?t1 ! 0))
           @ concat (map beforeEaches (drop (Suc 0) (descriptionContextStack ?t1)))
        = concat (map beforeEaches (descriptionContextStack ?t1))"
      using ne by (cases "descriptionContextStack ?t1") simp_all
    then show ?thesis
      using assms(3) by (simp only: be)
  qed
  have raise: "plain_raise (stackFrames ?t1) c = Some e"
    using assms(6) by simp
  have p2: "run m (BeforeEachLoop 0 0) ?t1 = Some (Raised e, ?t')"
  proof (rule beforeEachLoop_raise [OF _ _ flat assms(4,5) raise])
    show "\<not> isInsideUnit ?t1"
      using assms(1) by (simp add: stack_beforeAlls_phase)
    show "0 < length (descriptionContextStack ?t1)"
      by simp
    show "hooks_fuel (drop 0 (beforeEaches (descriptionContextStack ?t1 ! 0)))
           + contexts_fuel (map beforeEaches (drop (Suc 0) (descriptionContextStack ?t1))) < m"
      using contexts_fuel_from_start [OF ne, of beforeEaches] m
      by (simp add: it_fuel_def be)
  qed
  have "run (Suc m) (Call (It name body)) t = Some (Raised e, ?t')"
    using assms(1) p1 p2 by simp
  then show ?thesis
    unfolding n using assms(1)
    by (intro exI [of _ ?t']) (simp add: stack_beforeAlls_phase del: run.simps)
qed

theorem it_propagates_beforeEach_exception_witness:
  "\<not> isInsideUnit throwing_beforeEach
   \<and> list_all (list_all quiet) (beforeAlls (currentDescriptionContext throwing_beforeEach))
   \<and> concat (map beforeEaches (descriptionContextStack throwing_beforeEach))
       = [[Log ''first'']] @ ([Log ''setup''] @ Throw boom # [Log ''unreached'']) # []
   \<and> list_all (list_all quiet) [[Log ''first'']] \<and> list_all quiet [Log ''setup'']
   \<and> plain_raise (stackFrames throwing_beforeEach) (Throw boom) = Some boom
   \<and> it_fuel [Log ''body''] throwing_beforeEach \<le> 20
   \<and> (\<exists>t'. run 20 (Call (It ''u'' [Log ''body''])) throwing_beforeEach = Some (Raised boom, t')
        \<and> successCount (currentDescriptionContext t') = 0
        \<and> failureCount (currentDescriptionContext t') = 0
        \<and> outputLines (currentDescriptionContext t') = []
        \<and> testLog t' = [''first'', ''setup'']
        \<and> spyHeap t' = [(new_Spy ''m'')\<lparr>calls := [[1]]\<rparr>]
        \<and> \<not> isInsideUnit t')"
proof -
  have h1: "\<not> isInsideUnit throwing_beforeEach"
    by (simp add: throwing_beforeEach_def new_Tester_def)
  have h2: "list_all (list_all quiet) (beforeAlls (currentDescriptionContext throwing_beforeEach))"
    by (simp add: throwing_beforeEach_def getEmptyDescriptionContext_def)
  have h3: "concat (map beforeEaches (descriptionContextStack throwing_beforeEach))
       = [[Log ''first'']] @ ([Log ''setup''] @ Throw boom # [Log ''unreached'']) # []"
    by (simp add: throwing_beforeEach_def getEmptyDescriptionContext_def new_Tester_def
        descriptionContextStack_def)
  have h4: "list_all (list_all quiet) [[Log ''first'']]" by simp
  have h5: "list_all quiet [Log ''setup'']" by simp
  have h6: "plain_raise (stackFrames throwing_beforeEach) (Throw boom) = Some boom" by simp
  have h7: "it_fuel [Log ''body''] throwing_beforeEach \<le> 20"
    by (simp add: it_fuel_def throwing_beforeEach_def getEmptyDescriptionContext_def new_Tester_def
        descriptionContextStack_def)
  from it_propagates_beforeEach_exception [OF h1 h2 h3 h4 h5 h6 h7, of "''u''"]
  have "\<exists>t'. run 20 (Call (It ''u'' [Log ''body''])) throwing_beforeEach = Some (Raised boom, t')
        \<and> successCount (currentDescriptionContext t') = 0
        \<and> failureCount (currentDescriptionContext t') = 0
        \<and> outputLines (currentDescriptionContext t') = []
        \<and> testLog t' = [''first'', ''setup'']
        \<and> spyHeap t' = [(new_Spy ''m'')\<lparr>calls := [[1]]\<rparr>]
        \<and> \<not> isInsideUnit t'"
    by (simp add: throwing_beforeEach_def getEmptyDescriptionContext_def new_Tester_def
        beforeAlls_due_def)
  with h1 h2 h3 h4 h5 h6 h7 show ?thesis by blast
qed

section \<open>Spies and units\<close>

lemma length_recorded [simp]: "length (recorded cs h) = length h"
  by (induction cs h rule: recorded.induct) simp_all

lemma installed_record_call [simp]: "installed (record_call m args s) = installed s"
  by (simp add: record_call_def)

lemma installed_recorded [simp]: "map installed (recorded cs h) = map installed h"
  by (induction cs h rule: recorded.induct) (simp_all add: comp_def)

lemma length_clearCalls [simp]: "length (clearCalls i h) = length h"
  by (simp add: clearCalls_def)

lemma installed_clearCalls [simp]: "map installed (clearCalls i h) = map installed h"
  by (simp add: clearCalls_def map_update list_update_same_conv)

lemma length_fold_clearCalls [simp]: "length (fold clearCalls ids h) = length h"
  by (induction ids arbitrary: h) simp_all

lemma installed_fold_clearCalls [simp]: "map installed (fold clearCalls ids h) = map installed h"
  by (induction ids arbitrary: h) simp_all

lemma calls_clearCalls:
  "j < length h \<Longrightarrow> calls (clearCalls i h ! j) = (if j = i then [] else calls (h ! j))"
  by (simp add: clearCalls_def nth_list_update)

lemma calls_stay_empty:
  "j < length h \<Longrightarrow> calls (h ! j) = [] \<Longrightarrow> calls (fold clearCalls ids h ! j) = []"
  by (induction ids arbitrary: h) (simp_all add: calls_clearCalls)

lemma calls_fold_clearCalls:
  "j \<in> set ids \<Longrightarrow> j < length h \<Longrightarrow> calls (fold clearCalls ids h ! j) = []"
proof (induction ids arbitrary: h)
  case Nil
  then show ?case by simp
next
  case (Cons i ids)
  show ?case
  proof (cases "j = i")
    case True
    with Cons.prems(2) show ?thesis
      by (simp add: calls_stay_empty calls_clearCalls)
  next
    case False
    with Cons show ?thesis by simp
  qed
qed

lemma sweep_heap_installed:
  "map installed (spyHeap (sweep sel clearSpies cs t)) = map installed (spyHeap t)"
  by (induction cs arbitrary: t) simp_all

lemma beforeEach_phase_heap [simp]:
  "spyHeap (beforeEach_phase t)
     = recorded (concat (concat (map beforeEaches (descriptionContextStack t)))) (spyHeap t)"
proof -
  have "\<And>cs s. spyHeap (sweep beforeEaches (\<lambda>c t. t) cs s)
      = recorded (concat (concat (map beforeEaches cs))) (spyHeap s)"
  proof -
    fix cs s
    show "spyHeap (sweep beforeEaches (\<lambda>c t. t) cs s)
      = recorded (concat (concat (map beforeEaches cs))) (spyHeap s)"
      by (induction cs arbitrary: s) simp_all
  qed
  then show ?thesis
    by (simp add: beforeEach_phase_def)
qed

lemma report_stack_spies [simp]:
  "map spies (descriptionContextStack (report r name start t)) = map spies (descriptionContextStack t)"
  by (simp add: descriptionContextStack_def)

text \<open>
  A second unit observes no call of the first; outside the scope of the spy the method is
  no longer spied on, and the expectation of the third unit fails.
\<close>

lemma spy_scenario_run:
  "tally (runToFinish 12 False spy_scenario) = Some (Ok, 2, 1)"
  by code_simp

text \<open>
  The way the tests of the repository install their spies, in a beforeEach hook of the root:
  every unit gets a fresh spy, registered on the scope the unit runs in.
\<close>

lemma spy_in_beforeEach_run:
  "runToFinish 12 False spy_in_beforeEach
     = Some (Ok, [], \<lparr>res_successCount = 2, res_failureCount = 0, res_output = []\<rparr>)"
  by code_simp

lemma length_reset [simp]: "length (reset i h) = length h"
  by (simp add: reset_def)

lemma installed_reset:
  "j < length h \<Longrightarrow> installed (reset i h ! j) = (if j = i then False else installed (h ! j))"
  by (simp add: reset_def nth_list_update)

lemma length_fold_reset [simp]: "length (fold reset ids h) = length h"
  by (induction ids arbitrary: h) simp_all

lemma reset_stays:
  "j < length h \<Longrightarrow> \<not> installed (h ! j) \<Longrightarrow> \<not> installed (fold reset ids h ! j)"
  by (induction ids arbitrary: h) (simp_all add: installed_reset)

lemma installed_fold_reset:
  "j \<in> set ids \<Longrightarrow> j < length h \<Longrightarrow> \<not> installed (fold reset ids h ! j)"
proof (induction ids arbitrary: h)
  case Nil
  then show ?case by simp
next
  case (Cons i ids)
  show ?case
  proof (cases "j = i")
    case True
    with Cons.prems(2) show ?thesis
      by (simp add: reset_stays installed_reset)
  next
    case False
    with Cons show ?thesis by simp
  qed
qed

text \<open>The exit of a scope detaches every spy installed in it.\<close>

lemma describe_tail_resets_spies:
  assumes "describe_tail description t = (Ok, t')"
    and "i \<in> set (spies (currentDescriptionContext t))" and "i < length (spyHeap t)"
  shows "\<not> installed (spyHeap t' ! i)"
proof -
  from assms(1) have "spyHeap t' = fold reset (rev (spies (currentDescriptionContext t))) (spyHeap t)"
    by (auto simp: describe_tail_def Let_def dedent_def split: if_splits)
  then show ?thesis
    using assms(2,3) by (simp add: installed_fold_reset)
qed

lemma spyMethod_record_call [simp]: "spyMethod (record_call m args s) = spyMethod s"
  by (simp add: record_call_def)

lemma spyMethod_recorded [simp]: "map spyMethod (recorded cs h) = map spyMethod h"
  by (induction cs h rule: recorded.induct) (simp_all add: comp_def)

lemma spyMethod_clearCalls [simp]: "map spyMethod (clearCalls i h) = map spyMethod h"
  by (simp add: clearCalls_def map_update list_update_same_conv)

lemma spyMethod_fold_clearCalls [simp]: "map spyMethod (fold clearCalls ids h) = map spyMethod h"
  by (induction ids arbitrary: h) simp_all

lemma nth_same:
  "map f h' = map f h \<Longrightarrow> i < length h \<Longrightarrow> f (h' ! i) = f (h ! i)"
  by (metis length_map nth_map)

lemma received_cong:
  "installed s' = installed s \<Longrightarrow> spyMethod s' = spyMethod s \<Longrightarrow> received s' cs = received s cs"
  by (induction s cs rule: received.induct) simp_all

lemma received_append [simp]: "received s (cs @ ds) = received s cs @ received s ds"
  by (induction s cs rule: received.induct) simp_all

lemma calls_recorded:
  "i < length h \<Longrightarrow> calls (recorded cs h ! i) = calls (h ! i) @ received (h ! i) cs"
proof (induction cs h rule: recorded.induct)
  case (2 m args cs h)
  have "received (record_call m args (h ! i)) cs = received (h ! i) cs"
    by (rule received_cong) simp_all
  with 2 show ?case
    by (simp add: record_call_def)
qed simp_all

lemma calls_fold_clearCalls_other:
  "i \<notin> set ids \<Longrightarrow> i < length h \<Longrightarrow> calls (fold clearCalls ids h ! i) = calls (h ! i)"
  by (induction ids arbitrary: h) (simp_all add: calls_clearCalls)

lemma sweep_heap_length [simp]:
  "length (spyHeap (sweep sel clearSpies cs t)) = length (spyHeap t)"
  by (induction cs arbitrary: t) simp_all

text \<open>One round of the loop of lines 158-161 keeps what a spy is and what it listens to.\<close>

lemma received_after_round:
  assumes "i < length (spyHeap t)"
  shows "received (spyHeap (clearSpies c (effects cs t)) ! i) ds = received (spyHeap t ! i) ds"
proof (rule received_cong)
  show "installed (spyHeap (clearSpies c (effects cs t)) ! i) = installed (spyHeap t ! i)"
    using assms by (intro nth_same) simp_all
  show "spyMethod (spyHeap (clearSpies c (effects cs t)) ! i) = spyMethod (spyHeap t ! i)"
    using assms by (intro nth_same) simp_all
qed

lemma sweep_unregistered:
  assumes "i < length (spyHeap t)" and "\<forall>c \<in> set cs. i \<notin> set (spies c)"
  shows "calls (spyHeap (sweep afterEaches clearSpies cs t) ! i)
     = calls (spyHeap t ! i) @ received (spyHeap t ! i) (concat (concat (map afterEaches cs)))"
  using assms
proof (induction cs arbitrary: t)
  case Nil
  then show ?case by simp
next
  case (Cons c cs)
  let ?t1 = "clearSpies c (effects (concat (afterEaches c)) t)"
  have len: "i < length (spyHeap ?t1)"
    using Cons.prems(1) by simp
  have here: "calls (spyHeap ?t1 ! i)
      = calls (spyHeap t ! i) @ received (spyHeap t ! i) (concat (afterEaches c))"
    using Cons.prems by (simp add: calls_fold_clearCalls_other calls_recorded)
  have "calls (spyHeap (sweep afterEaches clearSpies cs ?t1) ! i)
      = calls (spyHeap ?t1 ! i) @ received (spyHeap ?t1 ! i) (concat (concat (map afterEaches cs)))"
    using len Cons.prems(2) by (intro Cons.IH) simp_all
  then show ?case
    using here received_after_round [OF Cons.prems(1)] by simp
qed

lemma sweep_registered:
  assumes "k < length cs" and "i \<in> set (spies (cs ! k))" and "i < length (spyHeap t)"
    and "\<forall>j. k < j \<and> j < length cs \<longrightarrow> i \<notin> set (spies (cs ! j))"
  shows "calls (spyHeap (sweep afterEaches clearSpies cs t) ! i)
     = received (spyHeap t ! i) (concat (concat (map afterEaches (drop (Suc k) cs))))"
  using assms
proof (induction cs arbitrary: t k)
  case Nil
  then show ?case by simp
next
  case (Cons c cs)
  let ?t1 = "clearSpies c (effects (concat (afterEaches c)) t)"
  have len: "i < length (spyHeap ?t1)"
    using Cons.prems(3) by simp
  show ?case
  proof (cases k)
    case 0
    with Cons.prems(2) have own: "i \<in> set (spies c)" by simp
    have deeper: "\<forall>c' \<in> set cs. i \<notin> set (spies c')"
    proof
      fix c'
      assume "c' \<in> set cs"
      then obtain j where j: "j < length cs" "cs ! j = c'"
        by (auto simp: in_set_conv_nth)
      with Cons.prems(4) [rule_format, of "Suc j"] 0 show "i \<notin> set (spies c')"
        by simp
    qed
    have "calls (spyHeap ?t1 ! i) = []"
      using own Cons.prems(3) by (simp add: calls_fold_clearCalls)
    moreover have "calls (spyHeap (sweep afterEaches clearSpies cs ?t1) ! i)
        = calls (spyHeap ?t1 ! i) @ received (spyHeap ?t1 ! i) (concat (concat (map afterEaches cs)))"
      using len deeper by (rule sweep_unregistered)
    ultimately show ?thesis
      using 0 received_after_round [OF Cons.prems(3)] by simp
  next
    case (Suc k')
    have "calls (spyHeap (sweep afterEaches clearSpies cs ?t1) ! i)
        = received (spyHeap ?t1 ! i) (concat (concat (map afterEaches (drop (Suc k') cs))))"
    proof (rule Cons.IH [OF _ _ len])
      show "k' < length cs"
        using Cons.prems(1) Suc by simp
      show "i \<in> set (spies (cs ! k'))"
        using Cons.prems(2) Suc by simp
      show "\<forall>j. k' < j \<and> j < length cs \<longrightarrow> i \<notin> set (spies (cs ! j))"
        using Cons.prems(4) [rule_format, of "Suc j" for j] Suc by simp
    qed
    then show ?thesis
      using Suc received_after_round [OF Cons.prems(3)] by simp
  qed
qed

text \<open>
  Whatever the hooks and the body do: the last round of the loop of lines 158-161 is that of
  the current scope, and nothing runs after its spies are cleared.
\<close>

lemma afterEachLoop_clears_current:
  assumes "run n (AfterEachLoop k i) t = Some (Ok, t')" and "k \<le> length (outerContexts t)"
  shows "\<forall>j \<in> set (spies (currentDescriptionContext t')).
           j < length (spyHeap t') \<longrightarrow> calls (spyHeap t' ! j) = []"
  using assms
proof (induction n arbitrary: k i t)
  case 0
  then show ?case by simp
next
  case (Suc n)
  let ?c = "descriptionContextStack t ! k"
  from Suc.prems(2) have inside: "k < length (descriptionContextStack t)"
    by simp
  show ?case
  proof (cases "i < length (afterEaches ?c)")
    case True
    with Suc.prems(1) inside obtain t1
      where hook: "run n (Body (afterEaches ?c ! i)) t = Some (Ok, t1)"
        and rest: "run n (AfterEachLoop k (Suc i)) t1 = Some (Ok, t')"
      by (auto simp: andThen_eq_Some)
    from hook have "frame t Ok t1"
      by (rule run_frame)
    then have "outerContexts t1 = outerContexts t"
      by (simp add: frame_def)
    with rest Suc.prems(2) show ?thesis
      by (intro Suc.IH [of k "Suc i" t1]) simp_all
  next
    case False
    let ?t1 = "clearSpies ?c t"
    from False Suc.prems(1) inside have rest: "run n (AfterEachLoop (Suc k) 0) ?t1 = Some (Ok, t')"
      by simp
    show ?thesis
    proof (cases "Suc k \<le> length (outerContexts t)")
      case True
      with rest show ?thesis
        by (intro Suc.IH [of "Suc k" 0 ?t1]) (simp_all add: clearSpies_def)
    next
      case False
      with Suc.prems(2) have k: "k = length (outerContexts t)"
        by simp
      from rest k have t': "t' = clearSpies (currentDescriptionContext t) t"
        by (cases n) (auto simp: clearSpies_def descriptionContextStack_def)
      show ?thesis
        unfolding t' by (auto simp: clearSpies_def calls_fold_clearCalls)
    qed
  qed
qed

lemma it_clears_current_spies:
  assumes "run n (Call (It name body)) t = Some (Ok, t')"
  shows "\<forall>j \<in> set (spies (currentDescriptionContext t')).
           j < length (spyHeap t') \<longrightarrow> calls (spyHeap t' ! j) = []"
proof -
  from assms obtain m where n: "n = Suc m"
    by (cases n) simp_all
  from assms have outside: "\<not> isInsideUnit t"
    unfolding n by (auto split: if_splits)
  with assms obtain r t3 t4 start
    where loop: "run m (AfterEachLoop 0 0) (settle r t3) = Some (Ok, t4)"
      and t': "t' = report r name start t4"
    unfolding n by (auto simp: andThen_eq_Some onSettled_eq_Some)
  from loop have "\<forall>j \<in> set (spies (currentDescriptionContext t4)).
           j < length (spyHeap t4) \<longrightarrow> calls (spyHeap t4 ! j) = []"
    by (rule afterEachLoop_clears_current) simp
  then show ?thesis
    unfolding t' by simp
qed

text \<open>The exit of a scope, at the level of \<^verbatim>\<open>describe\<close>.\<close>

lemma describe_resets_spies:
  assumes "run (Suc m) (Call (Describe d f)) s = Some (Ok, s')"
    and "run m MaybeExecuteBeforeAlls s = Some (Ok, s1)"
    and "describe_scope m f s1 = Some (Ok, s4)"
    and "i \<in> set (spies (currentDescriptionContext s4))" and "i < length (spyHeap s4)"
  shows "\<not> installed (spyHeap s' ! i)"
proof -
  from assms(1) have outside: "\<not> isInsideUnit s"
    by (auto split: if_splits)
  with assms(1,2,3) have "describe_tail d s4 = (Ok, s')"
    by (simp add: run_describe del: run.simps)
  then show ?thesis
    using assms(4,5) by (rule describe_tail_resets_spies)
qed

text \<open>
  The state of the scenario is the one a fresh Tester reaches when the root has been declared,
  the nested \<^verbatim>\<open>describe\<close> has fired the pending beforeAlls of the root and opened its scope,
  and the nested scope has declared its spy and its hook.
\<close>

lemma spied_scopes_reached:
  "andThen (run 6 (Body spied_root) (new_Tester False)) (\<lambda>t0.
   andThen (run 6 MaybeExecuteBeforeAlls t0) (\<lambda>t1.
     run 6 (Body spied_inner) (indent (pushContext t1))))
   = Some (Ok, spied_scopes)"
  by code_simp

text \<open>
  In the second unit the spy of the root has one call on record, the one the afterEach hook
  of the nested scope made after the first unit and after \<^verbatim>\<open>it\<close> had cleared the spy; none
  of the two calls of the body of the first unit is on record. Both expectations hold.
\<close>

lemma deeper_afterEach_call_on_record:
  "tally (runToFinish 12 False deeper_afterEach_scenario) = Some (Ok, 2, 0)"
  by code_simp




section \<open>Usage errors\<close>

lemma declaration_unit_raise:
  "declaring c \<Longrightarrow> \<exists>msg. unit_raise fr c = Some (usage_error fr msg)"
  by (cases c) auto

lemma run_declaration_in_unit:
  assumes "isInsideUnit t" "declaring c"
  shows "\<exists>msg. run (Suc n) (Call c) t = Some (Raised (usage_error (stackFrames t) msg), t)"
  using assms declaration_unit_raise [OF assms(2), of "stackFrames t"] run_unit_raise [of t c _ n]
  by auto

lemma run_registration:
  assumes "\<not> isInsideUnit t" "registering c"
  shows "\<exists>t'. run (Suc n) (Call c) t = Some (Ok, t')
     \<and> successCount (currentDescriptionContext t') = successCount (currentDescriptionContext t)
     \<and> failureCount (currentDescriptionContext t') = failureCount (currentDescriptionContext t)"
  using assms by (cases c) (simp_all add: update_current_def)

lemma it_counts_declaration:
  assumes "\<not> isInsideUnit t" "quiet_hooks t" "declaring c" "it_fuel [c] t \<le> k"
  shows "\<exists>t'. run k (Call (It name [c])) t = Some (Ok, t')
     \<and> failureCount (currentDescriptionContext t') = failureCount (currentDescriptionContext t) + 1
     \<and> successCount (currentDescriptionContext t') = successCount (currentDescriptionContext t)"
proof -
  from assms(3) obtain msg
    where c: "unit_raise (stackFrames t) c = Some (usage_error (stackFrames t) msg)"
    using declaration_unit_raise by blast
  have "run k (Call (It name [c])) t
      = Some (Ok, it_quiet name [] (Raised (usage_error (stackFrames t) msg)) t)"
    using assms(1,2,4) c by (intro it_quiet_run) auto
  then show ?thesis
    by (simp add: it_quiet_current)
qed

lemma it_raises_only_from_hooks:
  assumes "\<not> isInsideUnit t" "run (Suc n) (Call (It name body)) t = Some (Raised e, t')"
  shows "\<exists>s. run n MaybeExecuteBeforeAlls s = Some (Raised e, t')
           \<or> run n (BeforeEachLoop 0 0) s = Some (Raised e, t')
           \<or> run n (AfterEachLoop 0 0) s = Some (Raised e, t')"
  using assms by (auto simp: andThen_eq_Some onSettled_eq_Some)

lemma describe_raises_only_from_callbacks:
  assumes "\<not> isInsideUnit t" "run (Suc n) (Call (Describe d body)) t = Some (Raised e, t')"
  shows "\<exists>s. run n MaybeExecuteBeforeAlls s = Some (Raised e, t')
           \<or> run n (Body body) s = Some (Raised e, t')
           \<or> (\<exists>k. run n (AfterAllsLoop k 0) s = Some (Raised e, t'))"
proof -
  from assms consider
    (parent) "run n MaybeExecuteBeforeAlls t = Some (Raised e, t')"
  | (scope) t1 where "run n MaybeExecuteBeforeAlls t = Some (Ok, t1)"
      "describe_scope n body t1 = Some (Raised e, t')"
  | (tail) t1 t4 where "run n MaybeExecuteBeforeAlls t = Some (Ok, t1)"
      "describe_scope n body t1 = Some (Ok, t4)" "describe_tail d t4 = (Raised e, t')"
    by (auto simp: run_describe andThen_eq_Some simp del: run.simps)
  then show ?thesis
  proof cases
    case parent
    then show ?thesis by blast
  next
    case scope
    then show ?thesis
      by (auto simp: describe_scope_def andThen_eq_Some)
  next
    case tail
    from tail(2) have "frame (indent (pushContext t1)) Ok t4"
      by (rule describe_scope_frame)
    then have "outerContexts t4 \<noteq> []"
      by (simp add: frame_def indent_def pushContext_def)
    with tail(3) show ?thesis
      by (simp add: describe_tail_def Let_def dedent_def)
  qed
qed

text \<open>
  C6, as stated, fails: a unit whose body calls \<^verbatim>\<open>describe\<close> is counted as a failure.
\<close>

theorem usage_error_counted_as_failure:
  "tally (runToFinish 6 False nested_declaration) = Some (Ok, 0, 1)"
  by code_simp

text \<open>
  C6, amended. Inside a unit body each of \<^verbatim>\<open>describe\<close>, \<^verbatim>\<open>it\<close>, the four hook registrations
  and \<^verbatim>\<open>spyOn\<close> raises a usage error to its caller and leaves the Tester, and so both
  counts, unchanged; \<^verbatim>\<open>spyOn\<close> of a property that is not callable raises anywhere. A unit
  whose body is such a call is counted as one failure by the enclosing \<^verbatim>\<open>it\<close>, under quiet
  hooks. Outside a unit body the hook registrations and \<^verbatim>\<open>spyOn\<close> of a callable property
  return normally without touching the counts, and \<^verbatim>\<open>it\<close> and \<^verbatim>\<open>describe\<close> raise only an
  exception that one of the callbacks they run has raised.
\<close>

theorem usage_errors_raise_to_caller:
  "(isInsideUnit t \<longrightarrow> declaring c \<longrightarrow>
      (\<exists>msg. run (Suc n) (Call c) t = Some (Raised (usage_error (stackFrames t) msg), t)))
   \<and> (\<exists>msg. run (Suc n) (Call (SpyOn m False)) t
          = Some (Raised (usage_error (stackFrames t) msg), t))
   \<and> (\<not> isInsideUnit t \<longrightarrow> quiet_hooks t \<longrightarrow> declaring c \<longrightarrow> it_fuel [c] t \<le> k \<longrightarrow>
      (\<exists>t'. run k (Call (It name [c])) t = Some (Ok, t')
         \<and> failureCount (currentDescriptionContext t') = failureCount (currentDescriptionContext t) + 1
         \<and> successCount (currentDescriptionContext t') = successCount (currentDescriptionContext t)))
   \<and> (\<not> isInsideUnit t \<longrightarrow> registering c \<longrightarrow>
      (\<exists>t'. run (Suc n) (Call c) t = Some (Ok, t')
         \<and> successCount (currentDescriptionContext t') = successCount (currentDescriptionContext t)
         \<and> failureCount (currentDescriptionContext t') = failureCount (currentDescriptionContext t)))
   \<and> (\<not> isInsideUnit t \<longrightarrow> run (Suc n) (Call (It name body)) t = Some (Raised e, t') \<longrightarrow>
      (\<exists>s. run n MaybeExecuteBeforeAlls s = Some (Raised e, t')
           \<or> run n (BeforeEachLoop 0 0) s = Some (Raised e, t')
           \<or> run n (AfterEachLoop 0 0) s = Some (Raised e, t')))
   \<and> (\<not> isInsideUnit t \<longrightarrow> run (Suc n) (Call (Describe d body)) t = Some (Raised e, t') \<longrightarrow>
      (\<exists>s. run n MaybeExecuteBeforeAlls s = Some (Raised e, t')
           \<or> run n (Body body) s = Some (Raised e, t')
           \<or> (\<exists>k. run n (AfterAllsLoop k 0) s = Some (Raised e, t'))))"
proof (intro conjI impI)
  show "\<exists>msg. run (Suc n) (Call (SpyOn m False)) t
          = Some (Raised (usage_error (stackFrames t) msg), t)"
    by auto
qed (erule (1) run_declaration_in_unit it_counts_declaration run_registration
       it_raises_only_from_hooks describe_raises_only_from_callbacks; assumption?)+

theorem usage_errors_raise_to_caller_witness:
  "isInsideUnit inside_unit \<and> declaring (BeforeEach [])
   \<and> (\<exists>msg. run (Suc 0) (Call (BeforeEach [])) inside_unit
          = Some (Raised (usage_error (stackFrames inside_unit) msg), inside_unit))
   \<and> (\<exists>msg. run (Suc 0) (Call (SpyOn ''m'' False)) (new_Tester False)
          = Some (Raised (usage_error (stackFrames (new_Tester False)) msg), new_Tester False))
   \<and> \<not> isInsideUnit (new_Tester False) \<and> quiet_hooks (new_Tester False)
   \<and> declaring (Describe ''inner'' []) \<and> it_fuel [Describe ''inner'' []] (new_Tester False) \<le> 10
   \<and> (\<exists>t'. run 10 (Call (It ''u'' [Describe ''inner'' []])) (new_Tester False) = Some (Ok, t')
         \<and> failureCount (currentDescriptionContext t')
             = failureCount (currentDescriptionContext (new_Tester False)) + 1
         \<and> successCount (currentDescriptionContext t')
             = successCount (currentDescriptionContext (new_Tester False)))
   \<and> registering (AfterAll [])
   \<and> (\<exists>t'. run (Suc 0) (Call (AfterAll [])) (new_Tester False) = Some (Ok, t')
         \<and> successCount (currentDescriptionContext t')
             = successCount (currentDescriptionContext (new_Tester False))
         \<and> failureCount (currentDescriptionContext t')
             = failureCount (currentDescriptionContext (new_Tester False)))
   \<and> \<not> isInsideUnit throwing_beforeEach
   \<and> run (Suc 19) (Call (It ''u'' [Log ''body''])) throwing_beforeEach
       = Some (Raised boom, thrown_in_beforeEach)
   \<and> (\<exists>s. run 19 MaybeExecuteBeforeAlls s = Some (Raised boom, thrown_in_beforeEach)
           \<or> run 19 (BeforeEachLoop 0 0) s = Some (Raised boom, thrown_in_beforeEach)
           \<or> run 19 (AfterEachLoop 0 0) s = Some (Raised boom, thrown_in_beforeEach))
   \<and> run (Suc 9) (Call (Describe ''d'' abandoned_body)) (new_Tester False)
       = Some (Raised boom, abandoned_state)
   \<and> (\<exists>s. run 9 MaybeExecuteBeforeAlls s = Some (Raised boom, abandoned_state)
           \<or> run 9 (Body abandoned_body) s = Some (Raised boom, abandoned_state)
           \<or> (\<exists>k. run 9 (AfterAllsLoop k 0) s = Some (Raised boom, abandoned_state)))"
proof -
  have a1: "isInsideUnit inside_unit"
    by (simp add: inside_unit_def)
  have a2: "declaring (BeforeEach [])" by simp
  have b1: "\<not> isInsideUnit (new_Tester False)"
    by (simp add: new_Tester_def)
  have b2: "quiet_hooks (new_Tester False)"
    by (simp add: quiet_hooks_def new_Tester_def descriptionContextStack_def
        getEmptyDescriptionContext_def)
  have b3: "declaring (Describe ''inner'' [])" by simp
  have b4: "it_fuel [Describe ''inner'' []] (new_Tester False) \<le> 10"
    by (simp add: it_fuel_def new_Tester_def descriptionContextStack_def
        getEmptyDescriptionContext_def)
  have c1: "registering (AfterAll [])" by simp
  have d1: "\<not> isInsideUnit throwing_beforeEach"
    by (simp add: throwing_beforeEach_def new_Tester_def)
  have d2: "run (Suc 19) (Call (It ''u'' [Log ''body''])) throwing_beforeEach
       = Some (Raised boom, thrown_in_beforeEach)"
    by code_simp
  have e1: "run (Suc 9) (Call (Describe ''d'' abandoned_body)) (new_Tester False)
       = Some (Raised boom, abandoned_state)"
    by code_simp
  note inside = usage_errors_raise_to_caller
    [where t = inside_unit and c = "BeforeEach []" and n = 0]
  note spy = usage_errors_raise_to_caller
    [where t = "new_Tester False" and m = "''m''" and n = 0]
  note caught = usage_errors_raise_to_caller
    [where t = "new_Tester False" and c = "Describe ''inner'' []" and k = 10 and name = "''u''"]
  note outside = usage_errors_raise_to_caller
    [where t = "new_Tester False" and c = "AfterAll []" and n = 0]
  note unit = usage_errors_raise_to_caller
    [where t = throwing_beforeEach and n = 19 and name = "''u''" and body = "[Log ''body'']"
       and e = boom and t' = thrown_in_beforeEach]
  note scope = usage_errors_raise_to_caller
    [where t = "new_Tester False" and n = 9 and d = "''d''" and body = abandoned_body
       and e = boom and t' = abandoned_state]
  from inside a1 a2
  have r1: "\<exists>msg. run (Suc 0) (Call (BeforeEach [])) inside_unit
      = Some (Raised (usage_error (stackFrames inside_unit) msg), inside_unit)"
    by blast
  from spy
  have r2: "\<exists>msg. run (Suc 0) (Call (SpyOn ''m'' False)) (new_Tester False)
          = Some (Raised (usage_error (stackFrames (new_Tester False)) msg), new_Tester False)"
    by blast
  from caught b1 b2 b3 b4
  have r3: "\<exists>t'. run 10 (Call (It ''u'' [Describe ''inner'' []])) (new_Tester False) = Some (Ok, t')
         \<and> failureCount (currentDescriptionContext t')
             = failureCount (currentDescriptionContext (new_Tester False)) + 1
         \<and> successCount (currentDescriptionContext t')
             = successCount (currentDescriptionContext (new_Tester False))"
    by blast
  from outside b1 c1
  have r4: "\<exists>t'. run (Suc 0) (Call (AfterAll [])) (new_Tester False) = Some (Ok, t')
         \<and> successCount (currentDescriptionContext t')
             = successCount (currentDescriptionContext (new_Tester False))
         \<and> failureCount (currentDescriptionContext t')
             = failureCount (currentDescriptionContext (new_Tester False))"
    by blast
  from unit d1 d2
  have r5: "\<exists>s. run 19 MaybeExecuteBeforeAlls s = Some (Raised boom, thrown_in_beforeEach)
           \<or> run 19 (BeforeEachLoop 0 0) s = Some (Raised boom, thrown_in_beforeEach)
           \<or> run 19 (AfterEachLoop 0 0) s = Some (Raised boom, thrown_in_beforeEach)"
    by blast
  from scope b1 e1
  have r6: "\<exists>s. run 9 MaybeExecuteBeforeAlls s = Some (Raised boom, abandoned_state)
           \<or> run 9 (Body abandoned_body) s = Some (Raised boom, abandoned_state)
           \<or> (\<exists>k. run 9 (AfterAllsLoop k 0) s = Some (Raised boom, abandoned_state))"
    by blast
  from a1 a2 r1 r2 b1 b2 b3 b4 r3 c1 r4 d1 d2 r5 e1 r6 show ?thesis
    by (intro conjI)
qed

end
